theory Spec2Isabelle
  imports Main
begin

section \<open>Strings of the host language\<close>

text \<open>
  A string is a list of code units; the model covers the code units below 256, which
  is what \<^typ>\<open>char\<close> holds. The white space that \<open>String.prototype.trim\<close>
  strips is, in that range, TAB, LF, VT, FF, CR, SPACE and NBSP.
\<close>

definition dquote :: char where
  "dquote = CHR 0x22"

definition comma :: char where
  "comma = CHR '',''"

definition newline :: char where
  "newline = CHR 0x0A"

definition is_ws :: "char \<Rightarrow> bool" where
  "is_ws c = (c \<in> set [CHR 0x09, CHR 0x0A, CHR 0x0B, CHR 0x0C, CHR 0x0D, CHR 0x20, CHR 0xA0])"

definition trim :: "string \<Rightarrow> string" where
  "trim s = rev (dropWhile is_ws (rev (dropWhile is_ws s)))"

text \<open>\<open>cell.includes(c)\<close> for a one-character needle.\<close>

definition str_includes :: "string \<Rightarrow> char \<Rightarrow> bool" where
  "str_includes s c = (c \<in> set s)"

text \<open>\<open>xs.join(sep)\<close>.\<close>

fun join :: "string \<Rightarrow> string list \<Rightarrow> string" where
  "join sep [] = []"
| "join sep [x] = x"
| "join sep (x # y # ys) = x @ sep @ join sep (y # ys)"

text \<open>
  \<open>s.split(sep)\<close> for a one-character separator: the pieces between the separators,
  one piece more than there are separators (so the empty string gives one empty piece).
  The second branch of the \<open>case\<close> is never taken, a split has at least one piece.
\<close>

fun split_char :: "char \<Rightarrow> string \<Rightarrow> string list" where
  "split_char sep [] = [[]]"
| "split_char sep (c # cs) =
     (if c = sep then [] # split_char sep cs
      else (case split_char sep cs of
              x # xs \<Rightarrow> (c # x) # xs
            | [] \<Rightarrow> [[c]]))"

text \<open>
  \<open>String.prototype.toLowerCase\<close> on the code units below 256: the letters A to Z
  and the upper-case letters of Latin-1 (0xC0 to 0xDE without the multiplication sign
  0xD7) move up by 32.
\<close>

definition is_upper :: "char \<Rightarrow> bool" where
  "is_upper c =
     ((65 \<le> (of_char c :: nat) \<and> (of_char c :: nat) \<le> 90)
      \<or> (192 \<le> (of_char c :: nat) \<and> (of_char c :: nat) \<le> 222 \<and> (of_char c :: nat) \<noteq> 215))"

definition lower_char :: "char \<Rightarrow> char" where
  "lower_char c = (if is_upper c then char_of (of_char c + 32 :: nat) else c)"

definition toLowerCase :: "string \<Rightarrow> string" where
  "toLowerCase s = map lower_char s"

section \<open>Decimal digits\<close>

definition is_digit :: "char \<Rightarrow> bool" where
  "is_digit c = (48 \<le> (of_char c :: nat) \<and> (of_char c :: nat) \<le> 57)"

definition digit_val :: "char \<Rightarrow> nat" where
  "digit_val c = of_char c - 48"

definition digit_char :: "nat \<Rightarrow> char" where
  "digit_char d = ''0123456789'' ! d"

function show_nat :: "nat \<Rightarrow> string" where
  "show_nat n = (if n < 10 then [digit_char n] else show_nat (n div 10) @ [digit_char (n mod 10)])"
  by pat_completeness auto
termination
  by (relation "measure id") auto

declare show_nat.simps [simp del]

definition nat_of_digits :: "string \<Rightarrow> nat" where
  "nat_of_digits s = foldl (\<lambda>a c. 10 * a + digit_val c) 0 s"

text \<open>
  The text of an integer-valued number below ten to the power 21 in magnitude, as
  \<open>Number.prototype.toString\<close> and a template literal give it: the decimal numeral,
  with a minus sign when negative. Clock readings and row indices are such numbers.
\<close>

definition show_int :: "int \<Rightarrow> string" where
  "show_int i = (if i < 0 then ''-'' @ show_nat (nat (- i)) else show_nat (nat i))"

definition pad_start :: "nat \<Rightarrow> string \<Rightarrow> string" where
  "pad_start n s = replicate (n - length s) (CHR ''0'') @ s"

section \<open>Numbers\<close>

text \<open>
  A number of the host language is NaN, an infinity, or a finite value. The finite
  values are modelled as decimals \<open>Fin m e\<close>, standing for \<open>m\<close> times ten to the power \<open>e\<close>: every
  binary double is such a decimal, and the program only parses, stores and prints amounts,
  it never computes with them. Not modelled: the rounding of a decimal literal with more
  than 17 significant digits to the nearest double, the rounding of tiny literals to
  zero, and the sign of zero. Modelled: the bound above which a literal rounds to an
  infinity, \<open>2 ^ 1024 - 2 ^ 970\<close>.
\<close>

datatype jsnum = NaN | PosInf | NegInf | Fin int int

text \<open>\<open>strip10 m e\<close> moves the trailing zeros of \<open>m\<close> into the exponent.\<close>

function strip10 :: "nat \<Rightarrow> int \<Rightarrow> nat \<times> int" where
  "strip10 m e = (if m \<noteq> 0 \<and> m mod 10 = 0 then strip10 (m div 10) (e + 1) else (m, e))"
  by pat_completeness auto
termination
  by (relation "measure fst") auto

declare strip10.simps [simp del]

definition zeros :: "nat \<Rightarrow> string" where
  "zeros n = replicate n (CHR ''0'')"

definition exponent_text :: "int \<Rightarrow> string" where
  "exponent_text ex = (if ex < 0 then ''-'' else ''+'') @ show_nat (nat \<bar>ex\<bar>)"

text \<open>
  \<open>Number::toString\<close> (ECMA-262, radix 10) for a positive value with the \<open>k\<close>
  significant digits \<open>ds\<close> and the decimal point after the \<open>n\<close>-th digit.
\<close>

definition digits_toString :: "string \<Rightarrow> int \<Rightarrow> string" where
  "digits_toString ds n =
     (if int (length ds) \<le> n \<and> n \<le> 21 then ds @ zeros (nat (n - int (length ds)))
      else if 0 < n \<and> n \<le> 21 then take (nat n) ds @ ''.'' @ drop (nat n) ds
      else if - 6 < n \<and> n \<le> 0 then ''0.'' @ zeros (nat (- n)) @ ds
      else if length ds = 1 then ds @ ''e'' @ exponent_text (n - 1)
      else take 1 ds @ ''.'' @ drop 1 ds @ ''e'' @ exponent_text (n - 1))"

definition decimal_toString :: "nat \<times> int \<Rightarrow> string" where
  "decimal_toString se = digits_toString (show_nat (fst se)) (int (length (show_nat (fst se))) + snd se)"

definition numToString :: "jsnum \<Rightarrow> string" where
  "numToString x =
     (case x of
        NaN \<Rightarrow> ''NaN''
      | PosInf \<Rightarrow> ''Infinity''
      | NegInf \<Rightarrow> ''-Infinity''
      | Fin m e \<Rightarrow>
          if m = 0 then ''0''
          else (if m < 0 then ''-'' else []) @ decimal_toString (strip10 (nat \<bar>m\<bar>) e))"

text \<open>A decimal at or above the rounding bound of the doubles becomes an infinity.\<close>

definition overflows :: "nat \<times> int \<Rightarrow> bool" where
  "overflows se =
     (if 0 \<le> snd se then (2 ^ 1024 - 2 ^ 970 :: int) \<le> int (fst se) * 10 ^ nat (snd se)
      else (2 ^ 1024 - 2 ^ 970 :: int) * 10 ^ nat (- snd se) \<le> int (fst se))"

definition finite_or_inf :: "bool \<Rightarrow> nat \<times> int \<Rightarrow> jsnum" where
  "finite_or_inf neg se =
     (if fst se = 0 then Fin 0 0
      else if overflows se then (if neg then NegInf else PosInf)
      else Fin (if neg then - int (fst se) else int (fst se)) (snd se))"

definition round_decimal :: "bool \<Rightarrow> nat \<Rightarrow> int \<Rightarrow> jsnum" where
  "round_decimal neg m e = finite_or_inf neg (strip10 m e)"

fun split_sign :: "string \<Rightarrow> bool \<times> string" where
  "split_sign (c # cs) =
     (if c = CHR ''-'' then (True, cs) else if c = CHR ''+'' then (False, cs) else (False, c # cs))"
| "split_sign [] = (False, [])"

definition starts_with :: "string \<Rightarrow> string \<Rightarrow> bool" where
  "starts_with p s = (take (length p) s = p)"

definition signed_digits :: "bool \<times> string \<Rightarrow> int" where
  "signed_digits sr =
     (if takeWhile is_digit (snd sr) = [] then 0
      else if fst sr then - int (nat_of_digits (takeWhile is_digit (snd sr)))
      else int (nat_of_digits (takeWhile is_digit (snd sr))))"

text \<open>
  The exponent part, where there is one: \<open>e\<close> or \<open>E\<close>, an optional sign, at least one
  digit. Anything else leaves the exponent out of the literal.
\<close>

definition scan_exponent :: "string \<Rightarrow> int" where
  "scan_exponent r =
     (case r of
        [] \<Rightarrow> 0
      | c # r' \<Rightarrow> if c = CHR ''e'' \<or> c = CHR ''E'' then signed_digits (split_sign r') else 0)"

text \<open>The fraction after the integer digits: its digits and what follows them.\<close>

definition scan_fraction :: "string \<Rightarrow> string \<times> string" where
  "scan_fraction r =
     (case r of
        [] \<Rightarrow> ([], r)
      | c # r' \<Rightarrow> if c = CHR ''.'' then (takeWhile is_digit r', dropWhile is_digit r') else ([], r))"

definition decimal_of_parts :: "bool \<Rightarrow> string \<Rightarrow> string \<times> string \<Rightarrow> jsnum" where
  "decimal_of_parts neg ip fr =
     (if ip = [] \<and> fst fr = [] then NaN
      else round_decimal neg (nat_of_digits (ip @ fst fr)) (scan_exponent (snd fr) - int (length (fst fr))))"

definition str_decimal :: "bool \<times> string \<Rightarrow> jsnum" where
  "str_decimal sr =
     (if starts_with ''Infinity'' (snd sr) then (if fst sr then NegInf else PosInf)
      else decimal_of_parts (fst sr) (takeWhile is_digit (snd sr))
             (scan_fraction (dropWhile is_digit (snd sr))))"

text \<open>
  \<open>parseFloat\<close> (ECMA-262): leading white space is dropped, then the longest prefix that
  is a decimal literal is taken; NaN when there is none.
\<close>

definition parseFloat :: "string \<Rightarrow> jsnum" where
  "parseFloat str = str_decimal (split_sign (dropWhile is_ws str))"

text \<open>\<open>isNaN\<close> on a number.\<close>

definition isNaN :: "jsnum \<Rightarrow> bool" where
  "isNaN x = (x = NaN)"

text \<open>
  The same number, its trailing zeros moved into the exponent: the form in which
  \<open>parseFloat\<close> returns finite values.
\<close>

definition canonical :: "jsnum \<Rightarrow> jsnum" where
  "canonical x =
     (case x of
        Fin m e \<Rightarrow>
          if m = 0 then Fin 0 0
          else Fin (if m < 0 then - int (fst (strip10 (nat \<bar>m\<bar>) e)) else int (fst (strip10 (nat \<bar>m\<bar>) e)))
                 (snd (strip10 (nat \<bar>m\<bar>) e))
      | _ \<Rightarrow> x)"

text \<open>The finite values that are in the range of the doubles.\<close>

definition in_double_range :: "jsnum \<Rightarrow> bool" where
  "in_double_range x = (case x of Fin m e \<Rightarrow> \<not> overflows (strip10 (nat \<bar>m\<bar>) e) | _ \<Rightarrow> True)"

section \<open>Dates\<close>

text \<open>
  A \<open>Date\<close> object holds a time value: NaN (an invalid date) or a whole number of
  milliseconds since the epoch, at most \<open>8.64 \<times> 10^15\<close> in magnitude. The calendar
  functions are those of ECMA-262 (Day, DayFromYear, YearFromTime, InLeapYear,
  MonthFromTime, DateFromTime, and the hour, minute, second and millisecond of a time),
  in UTC.
\<close>

datatype jsdate = InvalidDate | ValidDate int

definition msPerDay :: int where
  "msPerDay = 86400000"

definition maxTime :: int where
  "maxTime = 8640000000000000"

definition Day :: "int \<Rightarrow> int" where
  "Day t = t div msPerDay"

definition DayFromYear :: "int \<Rightarrow> int" where
  "DayFromYear y = 365 * (y - 1970) + (y - 1969) div 4 - (y - 1901) div 100 + (y - 1601) div 400"

definition InLeapYear :: "int \<Rightarrow> bool" where
  "InLeapYear y = (y mod 4 = 0 \<and> (y mod 100 \<noteq> 0 \<or> y mod 400 = 0))"

text \<open>
  The year of a day number: ECMA-262 defines it as the largest \<open>y\<close> with
  \<open>DayFromYear y \<le> d\<close>. It is computed from an estimate that is off by one at most.
\<close>

definition YearFromDay :: "int \<Rightarrow> int" where
  "YearFromDay d =
     (let y0 = 1970 + (400 * d) div 146097 in
      if d < DayFromYear y0 then y0 - 1
      else if DayFromYear (y0 + 1) \<le> d then y0 + 1
      else y0)"

definition YearFromTime :: "int \<Rightarrow> int" where
  "YearFromTime t = YearFromDay (Day t)"

definition DayWithinYear :: "int \<Rightarrow> int" where
  "DayWithinYear t = Day t - DayFromYear (YearFromTime t)"

text \<open>The day within the year on which each month starts, and the length of the year.\<close>

definition month_starts :: "bool \<Rightarrow> int list" where
  "month_starts leap =
     (let l = (if leap then 1 else 0)
      in [0, 31, 59 + l, 90 + l, 120 + l, 151 + l, 181 + l, 212 + l, 243 + l, 273 + l,
          304 + l, 334 + l, 365 + l])"

definition month_of :: "bool \<Rightarrow> int \<Rightarrow> nat" where
  "month_of leap dwy =
     (let l = (if leap then 1 else 0) in
      if dwy < 31 then 0
      else if dwy < 59 + l then 1
      else if dwy < 90 + l then 2
      else if dwy < 120 + l then 3
      else if dwy < 151 + l then 4
      else if dwy < 181 + l then 5
      else if dwy < 212 + l then 6
      else if dwy < 243 + l then 7
      else if dwy < 273 + l then 8
      else if dwy < 304 + l then 9
      else if dwy < 334 + l then 10
      else 11)"

definition MonthFromTime :: "int \<Rightarrow> nat" where
  "MonthFromTime t = month_of (InLeapYear (YearFromTime t)) (DayWithinYear t)"

definition DateFromTime :: "int \<Rightarrow> int" where
  "DateFromTime t = DayWithinYear t - month_starts (InLeapYear (YearFromTime t)) ! MonthFromTime t + 1"

definition HourFromTime :: "int \<Rightarrow> int" where
  "HourFromTime t = (t div 3600000) mod 24"

definition MinFromTime :: "int \<Rightarrow> int" where
  "MinFromTime t = (t div 60000) mod 60"

definition SecFromTime :: "int \<Rightarrow> int" where
  "SecFromTime t = (t div 1000) mod 60"

definition msFromTime :: "int \<Rightarrow> int" where
  "msFromTime t = t mod 1000"

text \<open>
  \<open>Date.prototype.toISOString\<close> of a valid date: \<open>YYYY-MM-DDTHH:mm:ss.sssZ\<close>, the
  year with four digits from 0 to 9999 and with a sign and six digits otherwise.
\<close>

definition year_text :: "int \<Rightarrow> string" where
  "year_text y =
     (if 0 \<le> y \<and> y \<le> 9999 then pad_start 4 (show_nat (nat y))
      else (if y < 0 then ''-'' else ''+'') @ pad_start 6 (show_nat (nat \<bar>y\<bar>)))"

definition two_digits :: "int \<Rightarrow> string" where
  "two_digits n = pad_start 2 (show_nat (nat n))"

definition iso_date_text :: "int \<Rightarrow> string" where
  "iso_date_text t =
     year_text (YearFromTime t) @ ''-'' @ two_digits (int (MonthFromTime t) + 1)
       @ ''-'' @ two_digits (DateFromTime t)"

definition iso_time_text :: "int \<Rightarrow> string" where
  "iso_time_text t =
     two_digits (HourFromTime t) @ '':'' @ two_digits (MinFromTime t)
       @ '':'' @ two_digits (SecFromTime t)
       @ ''.'' @ pad_start 3 (show_nat (nat (msFromTime t)))"

definition toISOString :: "int \<Rightarrow> string" where
  "toISOString t = iso_date_text t @ ''T'' @ iso_time_text t @ ''Z''"

text \<open>
  \<open>new Date(text)\<close>. ECMA-262 fixes the result for the date-time string format and
  leaves every other text to the implementation. The model computes the two forms that
  the program itself writes, for a day that exists in the calendar: the date-only form
  \<open>YYYY-MM-DD\<close> (and \<open>+YYYYYY-MM-DD\<close>, \<open>-YYYYYY-MM-DD\<close>) of the export, which
  is midnight UTC of that day, and the full form \<open>YYYY-MM-DDTHH:mm:ss.sssZ\<close> of
  \<open>toISOString\<close>, with the hour from 00 to 23. For every other text it asks
  \<open>legacy\<close>, a parameter that stands for what the implementation makes of it.
\<close>

definition iso_fields :: "bool \<Rightarrow> nat \<Rightarrow> string \<Rightarrow> (bool \<times> string \<times> string \<times> string) option" where
  "iso_fields neg ylen body =
     (case drop ylen body of
        [h1, m1, m2, h2, d1, d2] \<Rightarrow>
          if length (take ylen body) = ylen \<and> list_all is_digit (take ylen body @ [m1, m2, d1, d2])
             \<and> h1 = CHR ''-'' \<and> h2 = CHR ''-''
          then Some (neg, take ylen body, [m1, m2], [d1, d2])
          else None
      | _ \<Rightarrow> None)"

definition iso_date_fields :: "string \<Rightarrow> (bool \<times> string \<times> string \<times> string) option" where
  "iso_date_fields s =
     (case s of
        [] \<Rightarrow> None
      | c # r \<Rightarrow> if c = CHR ''+'' then iso_fields False 6 r
                 else if c = CHR ''-'' then iso_fields True 6 r
                 else iso_fields False 4 s)"

definition DaysInMonth :: "int \<Rightarrow> nat \<Rightarrow> int" where
  "DaysInMonth y mo = month_starts (InLeapYear y) ! mo - month_starts (InLeapYear y) ! (mo - 1)"

definition MakeDay :: "int \<Rightarrow> nat \<Rightarrow> int \<Rightarrow> int" where
  "MakeDay y mo dd = DayFromYear y + month_starts (InLeapYear y) ! (mo - 1) + dd - 1"

definition TimeClip :: "int \<Rightarrow> int option" where
  "TimeClip tv = (if \<bar>tv\<bar> \<le> maxTime then Some tv else None)"

definition iso_date_value :: "bool \<Rightarrow> int \<Rightarrow> nat \<Rightarrow> int \<Rightarrow> int option" where
  "iso_date_value neg y mo dd =
     (if neg \<and> y = 0 then None
      else if 1 \<le> mo \<and> mo \<le> 12 \<and> 1 \<le> dd \<and> dd \<le> DaysInMonth y mo
      then TimeClip (MakeDay y mo dd * msPerDay)
      else None)"

definition parse_iso_date :: "string \<Rightarrow> int option" where
  "parse_iso_date s =
     (case iso_date_fields s of
        None \<Rightarrow> None
      | Some (neg, ys, ms, ds) \<Rightarrow>
          iso_date_value neg (if neg then - int (nat_of_digits ys) else int (nat_of_digits ys))
            (nat_of_digits ms) (int (nat_of_digits ds)))"

text \<open>The time of day \<open>HH:mm:ss.sssZ\<close> in milliseconds.\<close>

definition iso_time_value :: "string \<Rightarrow> int option" where
  "iso_time_value tm =
     (if length tm = 13
         \<and> list_all is_digit (take 2 tm @ take 2 (drop 3 tm) @ take 2 (drop 6 tm) @ take 3 (drop 9 tm))
         \<and> tm ! 2 = CHR '':'' \<and> tm ! 5 = CHR '':'' \<and> tm ! 8 = CHR ''.'' \<and> tm ! 12 = CHR ''Z''
         \<and> nat_of_digits (take 2 tm) \<le> 23
         \<and> nat_of_digits (take 2 (drop 3 tm)) \<le> 59
         \<and> nat_of_digits (take 2 (drop 6 tm)) \<le> 59
      then Some (int (nat_of_digits (take 2 tm)) * 3600000
                 + int (nat_of_digits (take 2 (drop 3 tm))) * 60000
                 + int (nat_of_digits (take 2 (drop 6 tm))) * 1000
                 + int (nat_of_digits (take 3 (drop 9 tm))))
      else None)"

definition parse_iso_date_time :: "string \<Rightarrow> int option" where
  "parse_iso_date_time s =
     (case dropWhile (\<lambda>c. c \<noteq> CHR ''T'') s of
        [] \<Rightarrow> None
      | t # tm \<Rightarrow>
          (case parse_iso_date (takeWhile (\<lambda>c. c \<noteq> CHR ''T'') s) of
             None \<Rightarrow> None
           | Some day \<Rightarrow>
               (case iso_time_value tm of
                  None \<Rightarrow> None
                | Some ms \<Rightarrow> TimeClip (day + ms))))"

definition newDate :: "(string \<Rightarrow> jsdate) \<Rightarrow> string \<Rightarrow> jsdate" where
  "newDate legacy s =
     (case parse_iso_date s of
        Some tv \<Rightarrow> ValidDate tv
      | None \<Rightarrow>
          (case parse_iso_date_time s of
             Some tv \<Rightarrow> ValidDate tv
           | None \<Rightarrow> legacy s))"

text \<open>An implementation that accepts no text beyond the computed form.\<close>

definition no_legacy_formats :: "string \<Rightarrow> jsdate" where
  "no_legacy_formats s = InvalidDate"

section \<open>CSV cells\<close>

text \<open>
  The cell writer of \<open>exportToCSV\<close> (transaction.service.ts, lines 57 to 63): a cell
  holding a comma, a double quote or a line feed is wrapped in double quotes, every
  double quote inside it doubled (\<open>cell.replace(/"/g, '""')\<close>); any other cell is
  written as it is.
\<close>

definition double_quotes :: "string \<Rightarrow> string" where
  "double_quotes s = concat (map (\<lambda>c. if c = dquote then [dquote, dquote] else [c]) s)"

definition escape_cell :: "string \<Rightarrow> string" where
  "escape_cell cell =
     (if str_includes cell comma \<or> str_includes cell dquote \<or> str_includes cell newline
      then [dquote] @ double_quotes cell @ [dquote]
      else cell)"

text \<open>
  \<open>parseCSVLine\<close> (lines 141 to 161). The loop runs over the characters with the
  three locals \<open>result\<close>, \<open>current\<close> and \<open>inQuotes\<close>; after the loop the last cell is
  pushed.
\<close>

fun parseCSVLine_loop :: "string \<Rightarrow> string list \<Rightarrow> string \<Rightarrow> bool \<Rightarrow> string list" where
  "parseCSVLine_loop [] result current inQuotes = result @ [trim current]"
| "parseCSVLine_loop (c # cs) result current inQuotes =
     (if c = dquote then parseCSVLine_loop cs result current (\<not> inQuotes)
      else if c = comma \<and> \<not> inQuotes then parseCSVLine_loop cs (result @ [trim current]) [] inQuotes
      else parseCSVLine_loop cs result (current @ [c]) inQuotes)"

definition parseCSVLine :: "string \<Rightarrow> string list" where
  "parseCSVLine line = parseCSVLine_loop line [] [] False"

section \<open>Transactions and their stored form\<close>

text \<open>
  The interface \<open>Transaction\<close> of transaction.service.ts. The date is the time value
  of a valid \<open>Date\<close>. The amount is declared a number; at run time it can also be
  \<open>null\<close>, read back from a stored amount that was not finite, so it is a
  \<open>jsnum option\<close> with \<open>None\<close> for \<open>null\<close>. An absent description is \<open>None\<close>.
\<close>

datatype txn_type = Savings | Spend

record Transaction =
  txn_id :: string
  date :: int
  amount :: "jsnum option"
  txn_type :: txn_type
  description :: "string option"

text \<open>
  What \<open>JSON.stringify\<close> writes for a transaction and \<open>JSON.parse\<close> reads back: the
  date as its ISO text (here: the time value that text denotes), a finite amount as a
  number, any other amount as \<open>null\<close>, and no description key for an absent description.
\<close>

datatype json_number = JNull | JNum int int

record stored_txn =
  j_id :: string
  j_date :: int
  j_amount :: json_number
  j_type :: txn_type
  j_description :: "string option"

definition json_of_amount :: "jsnum option \<Rightarrow> json_number" where
  "json_of_amount a = (case a of Some (Fin m e) \<Rightarrow> JNum m e | _ \<Rightarrow> JNull)"

definition amount_of_json :: "json_number \<Rightarrow> jsnum option" where
  "amount_of_json j = (case j of JNull \<Rightarrow> None | JNum m e \<Rightarrow> Some (Fin m e))"

definition stringify_txn :: "Transaction \<Rightarrow> stored_txn" where
  "stringify_txn t =
     \<lparr>j_id = txn_id t, j_date = date t, j_amount = json_of_amount (amount t),
      j_type = txn_type t, j_description = description t\<rparr>"

text \<open>The object that \<open>getTransactions\<close> builds from a stored one (lines 22 to 25).\<close>

definition revive_txn :: "stored_txn \<Rightarrow> Transaction" where
  "revive_txn j =
     \<lparr>txn_id = j_id j, date = j_date j, amount = amount_of_json (j_amount j),
      txn_type = j_type j, description = j_description j\<rparr>"

section \<open>The storage slot\<close>

text \<open>
  The slot \<open>savings-app-transactions\<close> of \<open>localStorage\<close> is absent (\<open>None\<close>) or holds
  a text. For the operations of the service, a text is classified by what
  \<open>getTransactions\<close> meets when it reads it: the empty text; a text that \<open>JSON.parse\<close>
  rejects; the JSON text of a value that is not an array; the JSON text of an array with
  a \<open>null\<close> element; the JSON text of an array of transaction objects, which is what the
  program itself writes. The first three failing classes carry the message of the error
  that the engine throws. The classes stand for texts: \<open>getTransactions_text\<close> below
  is \<open>getTransactions\<close> computed on the text itself, for every text, and lemma
  \<open>reading_what_was_written\<close> shows that it reads the text of the class \<open>Records\<close>
  as \<open>getTransactions\<close> reads the class. Arrays of other values are in no class; what
  is read from them is stated on the text. \<open>setItem\<close> is taken to succeed: a full
  storage is not modelled.
\<close>

datatype payload =
    EmptyText
  | NotJson string
  | NotArray string
  | NullElement string
  | Records "stored_txn list"

type_synonym storage = "payload option"

datatype js_error = SyntaxError string | TypeError string

definition error_message :: "js_error \<Rightarrow> string" where
  "error_message e = (case e of SyntaxError m \<Rightarrow> m | TypeError m \<Rightarrow> m)"

section \<open>The transaction service\<close>

text \<open>\<open>getTransactions\<close> (lines 17 to 26).\<close>

definition getTransactions :: "storage \<Rightarrow> js_error + Transaction list" where
  "getTransactions st =
     (case st of
        None \<Rightarrow> Inr []
      | Some EmptyText \<Rightarrow> Inr []
      | Some (NotJson m) \<Rightarrow> Inl (SyntaxError m)
      | Some (NotArray m) \<Rightarrow> Inl (TypeError m)
      | Some (NullElement m) \<Rightarrow> Inl (TypeError m)
      | Some (Records js) \<Rightarrow> Inr (map revive_txn js))"

text \<open>\<open>description?.trim() || undefined\<close> (lines 35 and 95).\<close>

definition normalize_description :: "string option \<Rightarrow> string option" where
  "normalize_description d =
     (case d of
        None \<Rightarrow> None
      | Some s \<Rightarrow> if trim s = [] then None else Some (trim s))"

text \<open>
  \<open>addTransaction\<close> (lines 28 to 39). It has the three parameters \<open>amount\<close>, \<open>type\<close>
  and \<open>description\<close>; a call with more arguments binds the first three and the body
  never looks at the others, which the model receives as \<open>extra\<close>. \<open>now_ms\<close> is what
  \<open>Date.now()\<close> returns and \<open>now_date\<close> the time value of \<open>new Date()\<close>. The result
  is the storage after the call, or the error that \<open>getTransactions\<close> throws.
\<close>

definition addTransaction ::
  "int \<Rightarrow> int \<Rightarrow> jsnum \<Rightarrow> txn_type \<Rightarrow> string option \<Rightarrow> jsdate list \<Rightarrow> storage \<Rightarrow> js_error + storage" where
  "addTransaction now_ms now_date amount_arg type_arg description_arg extra st =
     (case getTransactions st of
        Inl err \<Rightarrow> Inl err
      | Inr transactions \<Rightarrow>
          Inr (Some (Records (map stringify_txn
            (transactions @
               [\<lparr>txn_id = show_int now_ms, date = now_date, amount = Some amount_arg,
                 txn_type = type_arg, description = normalize_description description_arg\<rparr>])))))"

text \<open>\<open>clearTransactions\<close> (lines 41 to 43).\<close>

definition clearTransactions :: "storage \<Rightarrow> storage" where
  "clearTransactions st = None"

text \<open>
  \<open>exportToCSV\<close> (lines 45 to 67). \<open>t.amount.toString()\<close> throws a TypeError on a
  \<open>null\<close> amount; the wording of its message is the engine's.
\<close>

definition null_amount_error :: js_error where
  "null_amount_error = TypeError ''Cannot read properties of null (reading toString)''"

definition type_text :: "txn_type \<Rightarrow> string" where
  "type_text ty = (case ty of Savings \<Rightarrow> ''savings'' | Spend \<Rightarrow> ''spend'')"

definition export_row :: "Transaction \<Rightarrow> js_error + string list" where
  "export_row t =
     (case amount t of
        None \<Rightarrow> Inl null_amount_error
      | Some a \<Rightarrow>
          Inr [hd (split_char (CHR ''T'') (toISOString (date t))),
               numToString a,
               type_text (txn_type t),
               (case description t of None \<Rightarrow> [] | Some s \<Rightarrow> s)])"

text \<open>\<open>xs.map(f)\<close> for an \<open>f\<close> that may throw: the first error ends the map.\<close>

fun map_throwing :: "('a \<Rightarrow> 'e + 'b) \<Rightarrow> 'a list \<Rightarrow> 'e + 'b list" where
  "map_throwing f [] = Inr []"
| "map_throwing f (x # xs) =
     (case f x of
        Inl err \<Rightarrow> Inl err
      | Inr y \<Rightarrow> (case map_throwing f xs of Inl err \<Rightarrow> Inl err | Inr ys \<Rightarrow> Inr (y # ys)))"

definition csv_header :: string where
  "csv_header = join '','' [''Date'', ''Amount'', ''Type'', ''Description'']"

definition csv_line :: "string list \<Rightarrow> string" where
  "csv_line row = join '','' (map escape_cell row)"

definition csv_text :: "string list list \<Rightarrow> string" where
  "csv_text rows = join [newline] (csv_header # map csv_line rows)"

definition exportToCSV :: "storage \<Rightarrow> js_error + string" where
  "exportToCSV st =
     (case getTransactions st of
        Inl err \<Rightarrow> Inl err
      | Inr transactions \<Rightarrow>
          (case map_throwing export_row transactions of
             Inl err \<Rightarrow> Inl err
           | Inr rows \<Rightarrow> Inr (csv_text rows)))"

text \<open>
  \<open>importFromCSV\<close> (lines 69 to 139). The body of its loop (lines 83 to 107) makes a
  transaction of a data line or skips the line (\<open>continue\<close>, here \<open>None\<close>).
\<close>

record import_result =
  success :: bool
  message :: string
  count :: nat

definition make_row :: "nat \<Rightarrow> jsdate \<Rightarrow> jsnum \<Rightarrow> string \<Rightarrow> string option \<Rightarrow> Transaction option" where
  "make_row i date_val amount_val type_val description_val =
     (case date_val of
        InvalidDate \<Rightarrow> None
      | ValidDate tv \<Rightarrow>
          if isNaN amount_val \<or> (type_val \<noteq> ''savings'' \<and> type_val \<noteq> ''spend'') then None
          else Some \<lparr>txn_id = show_int tv @ ''-'' @ show_nat i, date = tv, amount = Some amount_val,
                     txn_type = (if type_val = ''savings'' then Savings else Spend),
                     description = description_val\<rparr>)"

definition row_of_columns :: "(string \<Rightarrow> jsdate) \<Rightarrow> nat \<Rightarrow> string list \<Rightarrow> Transaction option" where
  "row_of_columns legacy i columns =
     (if length columns < 3 then None
      else make_row i (newDate legacy (columns ! 0)) (parseFloat (columns ! 1))
             (trim (toLowerCase (columns ! 2)))
             (normalize_description (if 3 < length columns then Some (columns ! 3) else None)))"

definition import_row :: "(string \<Rightarrow> jsdate) \<Rightarrow> nat \<Rightarrow> string \<Rightarrow> Transaction option" where
  "import_row legacy i data_line =
     (if trim data_line = [] then None
      else row_of_columns legacy i (parseCSVLine (trim data_line)))"

text \<open>
  The loop (lines 82 to 114) with its index \<open>i\<close> and the two locals it updates, the
  list \<open>transactions\<close> and the set \<open>existingIds\<close>.
\<close>

fun import_loop ::
  "(string \<Rightarrow> jsdate) \<Rightarrow> string list \<Rightarrow> nat \<Rightarrow> Transaction list \<Rightarrow> string set \<Rightarrow> Transaction list" where
  "import_loop legacy [] i transactions existingIds = transactions"
| "import_loop legacy (data_line # rest) i transactions existingIds =
     (case import_row legacy i data_line of
        None \<Rightarrow> import_loop legacy rest (Suc i) transactions existingIds
      | Some t \<Rightarrow>
          if txn_id t \<notin> existingIds
          then import_loop legacy rest (Suc i) (transactions @ [t]) (insert (txn_id t) existingIds)
          else import_loop legacy rest (Suc i) transactions existingIds)"

definition non_blank_lines :: "string \<Rightarrow> string list" where
  "non_blank_lines csvContent = filter (\<lambda>line. trim line \<noteq> []) (split_char newline csvContent)"

definition too_short_result :: import_result where
  "too_short_result =
     \<lparr>success = False, message = ''CSV file must have at least a header and one data row'', count = 0\<rparr>"

definition no_rows_result :: import_result where
  "no_rows_result =
     \<lparr>success = False, message = ''No valid transactions found in CSV file'', count = 0\<rparr>"

definition caught_result :: "js_error \<Rightarrow> import_result" where
  "caught_result err =
     \<lparr>success = False, message = ''Error importing CSV: '' @ error_message err, count = 0\<rparr>"

definition imported_result :: "nat \<Rightarrow> import_result" where
  "imported_result n =
     \<lparr>success = True, message = ''Successfully imported '' @ show_nat n @ '' transaction(s)'',
      count = n\<rparr>"

text \<open>
  The merge (lines 120 to 125): the existing transactions, then the new ones, sorted by
  date with the stable sort of the language, and written as the new content of the slot.
\<close>

definition merged :: "Transaction list \<Rightarrow> Transaction list \<Rightarrow> Transaction list" where
  "merged existingTransactions transactions = sort_key date (existingTransactions @ transactions)"

definition finish_import :: "storage \<Rightarrow> Transaction list \<Rightarrow> Transaction list \<Rightarrow> import_result \<times> storage" where
  "finish_import st existingTransactions transactions =
     (if length transactions = 0 then (no_rows_result, st)
      else (imported_result (length transactions),
            Some (Records (map stringify_txn (merged existingTransactions transactions)))))"

definition import_lines :: "(string \<Rightarrow> jsdate) \<Rightarrow> string list \<Rightarrow> storage \<Rightarrow> import_result \<times> storage" where
  "import_lines legacy dataLines st =
     (case getTransactions st of
        Inl err \<Rightarrow> (caught_result err, st)
      | Inr existingTransactions \<Rightarrow>
          finish_import st existingTransactions
            (import_loop legacy dataLines 0 [] (set (map txn_id existingTransactions))))"

definition importFromCSV :: "(string \<Rightarrow> jsdate) \<Rightarrow> string \<Rightarrow> storage \<Rightarrow> import_result \<times> storage" where
  "importFromCSV legacy csvContent st =
     (if length (non_blank_lines csvContent) < 2 then (too_short_result, st)
      else import_lines legacy (tl (non_blank_lines csvContent)) st)"

text \<open>
  Two names for stating properties of the import: a transaction as it is read back
  after it was stored, and the rows that an import adds to a store holding \<open>existing\<close>.
\<close>

definition as_stored :: "Transaction \<Rightarrow> Transaction" where
  "as_stored t = revive_txn (stringify_txn t)"

definition new_rows :: "(string \<Rightarrow> jsdate) \<Rightarrow> string \<Rightarrow> Transaction list \<Rightarrow> Transaction list" where
  "new_rows legacy csvContent existing =
     import_loop legacy (tl (non_blank_lines csvContent)) 0 [] (set (map txn_id existing))"

text \<open>
  The data rows that pass the validation of the loop body, each with the index of its
  line: the rows an import adds when none of their ids is in the store yet.
\<close>

fun valid_rows :: "(string \<Rightarrow> jsdate) \<Rightarrow> string list \<Rightarrow> nat \<Rightarrow> Transaction list" where
  "valid_rows legacy [] i = []"
| "valid_rows legacy (data_line # rest) i =
     (case import_row legacy i data_line of
        None \<Rightarrow> valid_rows legacy rest (Suc i)
      | Some t \<Rightarrow> t # valid_rows legacy rest (Suc i))"

text \<open>
  For the round trip through the CSV text: the start of the UTC day of a time value,
  which is the date truncated to day precision, and the texts without a comma, a double
  quote or white space, which is what the date, amount and type cells are.
\<close>

definition day_start :: "int \<Rightarrow> int" where
  "day_start t = Day t * msPerDay"

definition plain_text :: "string \<Rightarrow> bool" where
  "plain_text s = list_all (\<lambda>c. c \<noteq> comma \<and> c \<noteq> dquote \<and> \<not> is_ws c) s"

text \<open>The four cells that the export writes for a transaction with a number for its amount.\<close>

definition exported_cells :: "Transaction \<Rightarrow> string list" where
  "exported_cells t =
     [iso_date_text (date t),
      (case amount t of None \<Rightarrow> [] | Some a \<Rightarrow> numToString a),
      type_text (txn_type t),
      (case description t of None \<Rightarrow> [] | Some s \<Rightarrow> s)]"

text \<open>
  What the round trip keeps of a transaction: the day of its date, its amount in the
  form in which numbers are parsed, and its type.
\<close>

definition kept_of_original :: "Transaction \<Rightarrow> int \<times> jsnum option \<times> txn_type" where
  "kept_of_original t = (day_start (date t), map_option canonical (amount t), txn_type t)"

definition kept_of_imported :: "Transaction \<Rightarrow> int \<times> jsnum option \<times> txn_type" where
  "kept_of_imported t = (date t, amount t, txn_type t)"

text \<open>The transactions that the round trip is stated for.\<close>

definition exportable :: "Transaction \<Rightarrow> bool" where
  "exportable t =
     (\<bar>date t\<bar> \<le> maxTime
      \<and> (case amount t of None \<Rightarrow> False | Some a \<Rightarrow> in_double_range a)
      \<and> (case description t of
           None \<Rightarrow> True
         | Some s \<Rightarrow> comma \<notin> set s \<and> dquote \<notin> set s \<and> newline \<notin> set s))"

section \<open>The valid rows of a text, in the words of the specification\<close>

text \<open>
  The rule of the specification (section 4.2) for a data row, written from its words and
  not from the loop body, for counting the valid rows of a text: the row has at least
  three columns, its date column parses to a valid date, its amount column parses to a
  finite number, and its type column is \<open>savings\<close> or \<open>spend\<close> without regard to
  case and to the white space around it.
\<close>

definition is_finite :: "jsnum \<Rightarrow> bool" where
  "is_finite x = (case x of Fin m e \<Rightarrow> True | _ \<Rightarrow> False)"

definition spec_valid_row :: "(string \<Rightarrow> jsdate) \<Rightarrow> string \<Rightarrow> bool" where
  "spec_valid_row legacy data_line =
     (3 \<le> length (parseCSVLine (trim data_line))
      \<and> newDate legacy (parseCSVLine (trim data_line) ! 0) \<noteq> InvalidDate
      \<and> is_finite (parseFloat (parseCSVLine (trim data_line) ! 1))
      \<and> toLowerCase (trim (parseCSVLine (trim data_line) ! 2)) \<in> {''savings'', ''spend''})"

text \<open>The number \<open>N\<close> of valid data rows: the non-blank lines after the header that are valid.\<close>

definition spec_valid_count :: "(string \<Rightarrow> jsdate) \<Rightarrow> string \<Rightarrow> nat" where
  "spec_valid_count legacy csvContent =
     length (filter (spec_valid_row legacy) (tl (non_blank_lines csvContent)))"

text \<open>
  The id that the specification gives a valid row: the epoch milliseconds of its parsed
  date, a hyphen, and the index of the row among the data rows of the text. \<open>spec_ids\<close>
  lists the ids of the valid rows among the data rows, the first of which has index \<open>i\<close>.
\<close>

definition spec_row_id :: "(string \<Rightarrow> jsdate) \<Rightarrow> nat \<Rightarrow> string \<Rightarrow> string" where
  "spec_row_id legacy i data_line =
     (case newDate legacy (parseCSVLine (trim data_line) ! 0) of
        InvalidDate \<Rightarrow> []
      | ValidDate tv \<Rightarrow> show_int tv @ ''-'' @ show_nat i)"

fun spec_ids :: "(string \<Rightarrow> jsdate) \<Rightarrow> string list \<Rightarrow> nat \<Rightarrow> string list" where
  "spec_ids legacy [] i = []"
| "spec_ids legacy (data_line # rest) i =
     (if spec_valid_row legacy data_line
      then spec_row_id legacy i data_line # spec_ids legacy rest (Suc i)
      else spec_ids legacy rest (Suc i))"

text \<open>A data row whose amount column parses to an infinity.\<close>

definition infinite_amount_row :: "string \<Rightarrow> bool" where
  "infinite_amount_row data_line =
     (3 \<le> length (parseCSVLine (trim data_line))
      \<and> (parseFloat (parseCSVLine (trim data_line) ! 1) = PosInf
         \<or> parseFloat (parseCSVLine (trim data_line) ! 1) = NegInf))"

section \<open>Operations on the store\<close>

text \<open>
  The three operations that change the slot, for stating what every step of a run
  preserves. An append whose reading of the slot throws leaves the slot as it is.
\<close>

datatype operation =
    Append int int jsnum txn_type "string option"
  | ImportCSV string
  | Clear

definition apply_operation :: "(string \<Rightarrow> jsdate) \<Rightarrow> operation \<Rightarrow> storage \<Rightarrow> storage" where
  "apply_operation legacy op st =
     (case op of
        Append now_ms now_date amount_arg type_arg description_arg \<Rightarrow>
          (case addTransaction now_ms now_date amount_arg type_arg description_arg [] st of
             Inl err \<Rightarrow> st
           | Inr st' \<Rightarrow> st')
      | ImportCSV csvContent \<Rightarrow> snd (importFromCSV legacy csvContent st)
      | Clear \<Rightarrow> clearTransactions st)"

definition stored_ids :: "storage \<Rightarrow> string list" where
  "stored_ids st = (case getTransactions st of Inl err \<Rightarrow> [] | Inr ts \<Rightarrow> map txn_id ts)"

text \<open>An append is fresh when the text of its clock reading is not an id of the store.\<close>

definition fresh_id :: "operation \<Rightarrow> storage \<Rightarrow> bool" where
  "fresh_id op st =
     (case op of
        Append now_ms now_date amount_arg type_arg description_arg \<Rightarrow> show_int now_ms \<notin> set (stored_ids st)
      | _ \<Rightarrow> True)"



section \<open>The form of the component\<close>

text \<open>
  \<open>addSavings\<close> of app.component.ts (lines 88 to 98), as far as the storage and the
  three fields of the form go: it computes a date from the date field and passes it to
  \<open>addTransaction\<close> as a fourth argument. \<open>now_form\<close> is the time value of the
  \<open>new Date()\<close> of line 90. The refresh of the view is not modelled.
\<close>

record savings_form =
  savingsAmount :: "jsnum option"
  savingsDescription :: string
  savingsDate :: string

definition truthy_number :: "jsnum option \<Rightarrow> bool" where
  "truthy_number a = (case a of None \<Rightarrow> False | Some NaN \<Rightarrow> False | Some (Fin m e) \<Rightarrow> m \<noteq> 0 | Some _ \<Rightarrow> True)"

definition form_date :: "(string \<Rightarrow> jsdate) \<Rightarrow> int \<Rightarrow> string \<Rightarrow> jsdate" where
  "form_date legacy now_form date_field =
     (if date_field \<noteq> [] then newDate legacy date_field else ValidDate now_form)"

definition addSavings ::
  "(string \<Rightarrow> jsdate) \<Rightarrow> int \<Rightarrow> int \<Rightarrow> int \<Rightarrow> savings_form \<Rightarrow> storage \<Rightarrow> js_error + savings_form \<times> storage" where
  "addSavings legacy now_form now_ms now_date form st =
     (case savingsAmount form of
        None \<Rightarrow> Inr (form, st)
      | Some amount_val \<Rightarrow>
          if truthy_number (Some amount_val) then
            (case addTransaction now_ms now_date amount_val Savings
                    (Some (savingsDescription form))
                    [form_date legacy now_form (savingsDate form)] st of
               Inl err \<Rightarrow> Inl err
             | Inr st' \<Rightarrow> Inr (form\<lparr>savingsAmount := Some (Fin 0 0), savingsDescription := []\<rparr>, st'))
          else Inr (form, st))"

section \<open>JSON texts\<close>

text \<open>
  \<open>JSON.parse\<close> (ECMA-262 with the grammar of ECMA-404). An escape with four
  hexadecimal digits in a JSON string can denote any code unit, so the strings of JSON values are lists of code
  units as numbers; \<open>units\<close> takes a string of the model to that form and \<open>narrow\<close>
  back, when every code unit is below 256.
\<close>

type_synonym ustring = "nat list"

definition units :: "string \<Rightarrow> ustring" where
  "units s = map of_char s"

definition narrow :: "ustring \<Rightarrow> string option" where
  "narrow u = (if list_all (\<lambda>n. n < 256) u then Some (map char_of u) else None)"

text \<open>
  The values that \<open>JSON.parse\<close> returns. An object is given by its members in the
  order of the text; a later member overrides an earlier one with the same key, which is
  how \<open>property\<close> looks a key up. The order in which the engine enumerates the
  properties of an object is not modelled.
\<close>

datatype json =
    VNull
  | VBool bool
  | VNumber jsnum
  | VString ustring
  | VArray "json list"
  | VObject "(ustring \<times> json) list"

definition property :: "(ustring \<times> 'a) list \<Rightarrow> ustring \<Rightarrow> 'a option" where
  "property members k = map_of (rev members) k"

definition backslash :: char where
  "backslash = CHR 0x5C"

text \<open>The white space of JSON: tab, line feed, carriage return and space.\<close>

definition json_ws :: "char \<Rightarrow> bool" where
  "json_ws c = (c \<in> set [CHR 0x09, CHR 0x0A, CHR 0x0D, CHR 0x20])"

definition skip_ws :: "string \<Rightarrow> string" where
  "skip_ws s = dropWhile json_ws s"

text \<open>
  Strings. \<open>scan_string\<close> reads the text after the opening quote up to the closing
  one: a character below 0x20 is not allowed, and a backslash starts an escape, which is
  a quote, a backslash, a slash, one of the letters b, f, n, r and t, or the letter u
  with four hexadecimal digits. \<open>escape_unit\<close> gives the code unit of the escape and
  the number of characters that the escape takes after the backslash.
\<close>

definition hex_val :: "char \<Rightarrow> nat option" where
  "hex_val c =
     (if is_digit c then Some (of_char c - 48)
      else if 97 \<le> (of_char c :: nat) \<and> (of_char c :: nat) \<le> 102 then Some (of_char c - 87)
      else if 65 \<le> (of_char c :: nat) \<and> (of_char c :: nat) \<le> 70 then Some (of_char c - 55)
      else None)"

definition hex4 :: "string \<Rightarrow> nat option" where
  "hex4 s =
     (case map hex_val s of
        [Some a, Some b, Some c, Some d] \<Rightarrow> Some (((a * 16 + b) * 16 + c) * 16 + d)
      | _ \<Rightarrow> None)"

definition escape_unit :: "string \<Rightarrow> (nat \<times> nat) option" where
  "escape_unit r =
     (case r of
        [] \<Rightarrow> None
      | e # r' \<Rightarrow>
          if e = dquote then Some (34, 1)
          else if e = backslash then Some (92, 1)
          else if e = CHR ''/'' then Some (47, 1)
          else if e = CHR ''b'' then Some (8, 1)
          else if e = CHR ''f'' then Some (12, 1)
          else if e = CHR ''n'' then Some (10, 1)
          else if e = CHR ''r'' then Some (13, 1)
          else if e = CHR ''t'' then Some (9, 1)
          else if e = CHR ''u'' then map_option (\<lambda>n. (n, 5)) (hex4 (take 4 r'))
          else None)"

function scan_string :: "string \<Rightarrow> (ustring \<times> string) option" where
  "scan_string [] = None"
| "scan_string (c # r) =
     (if c = dquote then Some ([], r)
      else if c = backslash then
        (case escape_unit r of
           None \<Rightarrow> None
         | Some (u, k) \<Rightarrow> map_option (apfst (Cons u)) (scan_string (drop k r)))
      else if (of_char c :: nat) < 32 then None
      else map_option (apfst (Cons (of_char c))) (scan_string r))"
  by pat_completeness auto
termination
  by (relation "measure length") auto

text \<open>
  Numbers: an optional minus sign; a zero, or a digit from 1 to 9 followed by digits; an
  optional fraction with at least one digit; an optional exponent with at least one
  digit. Each of the functions returns what follows the part it reads. The value is that
  of the number text as a decimal literal, which is the value \<open>parseFloat\<close> gives it.
\<close>

definition digits_end :: "string \<Rightarrow> string option" where
  "digits_end s = (if takeWhile is_digit s = [] then None else Some (dropWhile is_digit s))"

definition int_end :: "string \<Rightarrow> string option" where
  "int_end s =
     (case s of
        [] \<Rightarrow> None
      | c # r \<Rightarrow>
          if c = CHR ''0'' then Some r
          else if is_digit c then Some (dropWhile is_digit r)
          else None)"

definition frac_end :: "string \<Rightarrow> string option" where
  "frac_end s =
     (case s of
        [] \<Rightarrow> Some s
      | c # r \<Rightarrow> if c = CHR ''.'' then digits_end r else Some s)"

definition exp_end :: "string \<Rightarrow> string option" where
  "exp_end s =
     (case s of
        [] \<Rightarrow> Some s
      | c # r \<Rightarrow>
          if c = CHR ''e'' \<or> c = CHR ''E'' then
            (case r of
               [] \<Rightarrow> None
             | d # r' \<Rightarrow> if d = CHR ''+'' \<or> d = CHR ''-'' then digits_end r' else digits_end r)
          else Some s)"

definition unsigned_end :: "string \<Rightarrow> string option" where
  "unsigned_end s =
     (case int_end s of
        None \<Rightarrow> None
      | Some s1 \<Rightarrow>
          (case frac_end s1 of
             None \<Rightarrow> None
           | Some s2 \<Rightarrow> exp_end s2))"

definition number_end :: "string \<Rightarrow> string option" where
  "number_end s = unsigned_end (case s of [] \<Rightarrow> s | c # r \<Rightarrow> if c = CHR ''-'' then r else s)"

definition scan_number :: "string \<Rightarrow> (jsnum \<times> string) option" where
  "scan_number s =
     (case number_end s of
        None \<Rightarrow> None
      | Some rest \<Rightarrow> Some (str_decimal (split_sign (take (length s - length rest) s)), rest))"

text \<open>
  Values, the elements of an array after its opening bracket, and the members of an
  object after its opening brace. Each function returns the value it reads and the text
  that follows. The comparisons of lengths only serve to show that the recursion ends;
  they hold whenever they are reached (lemmas \<open>parse_elements_Cons\<close> and
  \<open>parse_members_Cons\<close>). The depth to which an engine lets values nest is not modelled.
\<close>

function parse_value :: "string \<Rightarrow> (json \<times> string) option"
  and parse_elements :: "string \<Rightarrow> (json list \<times> string) option"
  and parse_members :: "string \<Rightarrow> ((ustring \<times> json) list \<times> string) option"
where
  "parse_value [] = None"
| "parse_value (c # r) =
     (if c = CHR ''['' then
        (case skip_ws r of
           [] \<Rightarrow> None
         | d # r' \<Rightarrow>
             if d = CHR '']'' then Some (VArray [], r')
             else map_option (apfst VArray) (parse_elements (d # r')))
      else if c = CHR ''{'' then
        (case skip_ws r of
           [] \<Rightarrow> None
         | d # r' \<Rightarrow>
             if d = CHR ''}'' then Some (VObject [], r')
             else map_option (apfst VObject) (parse_members (d # r')))
      else if c = dquote then map_option (apfst VString) (scan_string r)
      else if starts_with ''null'' (c # r) then Some (VNull, drop 4 (c # r))
      else if starts_with ''true'' (c # r) then Some (VBool True, drop 4 (c # r))
      else if starts_with ''false'' (c # r) then Some (VBool False, drop 5 (c # r))
      else map_option (apfst VNumber) (scan_number (c # r)))"
| "parse_elements [] = None"
| "parse_elements (c # r) =
     (case parse_value (c # r) of
        None \<Rightarrow> None
      | Some (v, r1) \<Rightarrow>
          (case skip_ws r1 of
             [] \<Rightarrow> None
           | d # r2 \<Rightarrow>
               if d = CHR '']'' then Some ([v], r2)
               else if d = comma \<and> length r2 < length (c # r)
               then map_option (apfst (Cons v)) (parse_elements (skip_ws r2))
               else None))"
| "parse_members [] = None"
| "parse_members (q # r) =
     (if q \<noteq> dquote then None
      else
        (case scan_string r of
           None \<Rightarrow> None
         | Some (k, r1) \<Rightarrow>
             (case skip_ws r1 of
                [] \<Rightarrow> None
              | c # r2 \<Rightarrow>
                  if c = CHR '':'' \<and> length r2 < length (q # r) then
                    (case parse_value (skip_ws r2) of
                       None \<Rightarrow> None
                     | Some (v, r3) \<Rightarrow>
                         (case skip_ws r3 of
                            [] \<Rightarrow> None
                          | e # r4 \<Rightarrow>
                              if e = CHR ''}'' then Some ([(k, v)], r4)
                              else if e = comma \<and> length r4 < length (q # r)
                              then map_option (apfst (Cons (k, v))) (parse_members (skip_ws r4))
                              else None))
                  else None)))"
  by pat_completeness auto
termination
proof (relation "measure (\<lambda>x. case x of Inl s \<Rightarrow> 2 * length s
      | Inr (Inl s) \<Rightarrow> 2 * length s + 1 | Inr (Inr s) \<Rightarrow> 2 * length s + 1)", goal_cases)
  case 1
  show ?case by simp
next
  case (2 c r d r')
  with length_dropWhile_le [of json_ws r] show ?case by (simp add: skip_ws_def)
next
  case (3 c r d r')
  with length_dropWhile_le [of json_ws r] show ?case by (simp add: skip_ws_def)
next
  case (4 c r)
  show ?case by simp
next
  case (5 c r x v r1 d r2)
  with length_dropWhile_le [of json_ws r2] show ?case by (simp add: skip_ws_def)
next
  case (6 q r x k r1 c r2)
  with length_dropWhile_le [of json_ws r2] show ?case by (simp add: skip_ws_def)
next
  case (7 q r x k r1 c r2 x' v r3 e r4)
  with length_dropWhile_le [of json_ws r4] show ?case by (simp add: skip_ws_def)
qed

text \<open>The whole text is one value with white space around it, or the parse fails.\<close>

definition JSON_parse :: "string \<Rightarrow> json option" where
  "JSON_parse text =
     (case parse_value (skip_ws text) of
        None \<Rightarrow> None
      | Some (v, r) \<Rightarrow> if skip_ws r = [] then Some v else None)"

section \<open>Reading the text of the slot\<close>

text \<open>
  \<open>getTransactions\<close> (lines 17 to 26) on the text that the slot holds. The stored text
  is parsed, and the callback of \<open>map\<close> (lines 22 to 25) is computed for whatever
  elements the array has. The errors are the engine's SyntaxError, from \<open>JSON.parse\<close>,
  and TypeError; the wording of their messages is the engine's.
\<close>

datatype error_kind = SyntaxErr | TypeErr

text \<open>
  The text that \<open>ToString\<close> makes of a value; \<open>None\<close> when it throws a TypeError. An
  array is joined with commas, a \<open>null\<close> element giving the empty text. An object
  gives \<open>[object Object]\<close>, unless it has a member with the key \<open>toString\<close>: that
  member is not a function and hides the method of the prototype, and the conversion
  throws.
\<close>

fun to_text :: "json \<Rightarrow> ustring option"
  and join_text :: "json list \<Rightarrow> ustring option"
where
  "to_text VNull = Some (units ''null'')"
| "to_text (VBool b) = Some (units (if b then ''true'' else ''false''))"
| "to_text (VNumber x) = Some (units (numToString x))"
| "to_text (VString u) = Some u"
| "to_text (VArray vs) = join_text vs"
| "to_text (VObject members) =
     (if property members (units ''toString'') = None then Some (units ''[object Object]'') else None)"
| "join_text [] = Some []"
| "join_text (v # vs) =
     (case (if v = VNull then Some [] else to_text v) of
        None \<Rightarrow> None
      | Some a \<Rightarrow>
          if vs = [] then Some a
          else (case join_text vs of None \<Rightarrow> None | Some b \<Rightarrow> Some (a @ units '','' @ b)))"

text \<open>
  \<open>new Date(v)\<close> for the value \<open>v\<close> of the property \<open>date\<close>, \<open>None\<close> standing for
  \<open>undefined\<close>. A number is cut to a whole number of milliseconds and is a valid time
  up to \<open>maxTime\<close> in magnitude; \<open>null\<close> and the booleans count as the numbers 0 and 1;
  a string is parsed as a date; an array or an object is first made a text. A string
  with a code unit above 255 is in no format that ECMA-262 fixes, and is left to the
  implementation, which \<open>legacy\<close> stands for here on lists of code units.
\<close>

definition date_of_number :: "jsnum \<Rightarrow> jsdate" where
  "date_of_number x =
     (case x of
        Fin m e \<Rightarrow>
          if 0 \<le> e then
            (if \<bar>m * 10 ^ nat e\<bar> \<le> maxTime then ValidDate (m * 10 ^ nat e) else InvalidDate)
          else
            (if \<bar>m\<bar> \<le> maxTime * 10 ^ nat (- e)
             then ValidDate (sgn m * (\<bar>m\<bar> div 10 ^ nat (- e)))
             else InvalidDate)
      | _ \<Rightarrow> InvalidDate)"

definition Date_parse :: "(ustring \<Rightarrow> jsdate) \<Rightarrow> ustring \<Rightarrow> jsdate" where
  "Date_parse legacy u =
     (case narrow u of
        None \<Rightarrow> legacy u
      | Some s \<Rightarrow> newDate (\<lambda>t. legacy (units t)) s)"

definition date_of_value :: "(ustring \<Rightarrow> jsdate) \<Rightarrow> json option \<Rightarrow> error_kind + jsdate" where
  "date_of_value legacy given =
     (case given of
        None \<Rightarrow> Inr InvalidDate
      | Some VNull \<Rightarrow> Inr (ValidDate 0)
      | Some (VBool b) \<Rightarrow> Inr (ValidDate (if b then 1 else 0))
      | Some (VNumber x) \<Rightarrow> Inr (date_of_number x)
      | Some (VString u) \<Rightarrow> Inr (Date_parse legacy u)
      | Some v \<Rightarrow> (case to_text v of None \<Rightarrow> Inl TypeErr | Some u \<Rightarrow> Inr (Date_parse legacy u)))"

text \<open>
  The callback \<open>t => ({...t, date: new Date(t.date)})\<close>. The spread copies the members
  of an object, the elements of an array under their indices and the characters of a
  string under theirs, and nothing of a number, a boolean or \<open>null\<close>. Reading
  \<open>t.date\<close> throws a TypeError when \<open>t\<close> is \<open>null\<close>; it gives the member \<open>date\<close> of an
  object and \<open>undefined\<close> otherwise. The object that is built has the copied properties,
  their values as parsed, and after them the property \<open>date\<close> with a \<open>Date\<close>.
\<close>

datatype jsval = Plain json | DateObject jsdate

fun indexed :: "nat \<Rightarrow> 'a list \<Rightarrow> (ustring \<times> 'a) list" where
  "indexed i [] = []"
| "indexed i (x # xs) = (units (show_nat i), x) # indexed (Suc i) xs"

definition own_properties :: "json \<Rightarrow> (ustring \<times> json) list" where
  "own_properties t =
     (case t of
        VObject members \<Rightarrow> members
      | VArray vs \<Rightarrow> indexed 0 vs
      | VString u \<Rightarrow> indexed 0 (map (\<lambda>c. VString [c]) u)
      | _ \<Rightarrow> [])"

definition date_property :: "json \<Rightarrow> json option" where
  "date_property t = (case t of VObject members \<Rightarrow> property members (units ''date'') | _ \<Rightarrow> None)"

definition revive :: "(ustring \<Rightarrow> jsdate) \<Rightarrow> json \<Rightarrow> error_kind + (ustring \<times> jsval) list" where
  "revive legacy t =
     (if t = VNull then Inl TypeErr
      else
        (case date_of_value legacy (date_property t) of
           Inl err \<Rightarrow> Inl err
         | Inr d \<Rightarrow> Inr (map (apsnd Plain) (own_properties t) @ [(units ''date'', DateObject d)])))"

definition getTransactions_text ::
  "(ustring \<Rightarrow> jsdate) \<Rightarrow> string option \<Rightarrow> error_kind + (ustring \<times> jsval) list list" where
  "getTransactions_text legacy stored =
     (case stored of
        None \<Rightarrow> Inr []
      | Some s \<Rightarrow>
          if s = [] then Inr []
          else
            (case JSON_parse s of
               None \<Rightarrow> Inl SyntaxErr
             | Some transactions \<Rightarrow>
                 (case transactions of
                    VArray ts \<Rightarrow> map_throwing (revive legacy) ts
                  | _ \<Rightarrow> Inl TypeErr)))"

text \<open>An implementation that accepts no text beyond the computed forms.\<close>

definition no_legacy_units :: "ustring \<Rightarrow> jsdate" where
  "no_legacy_units u = InvalidDate"

text \<open>
  An element whose property \<open>date\<close> cannot be made a text: the conversion of that
  property throws.
\<close>

definition date_without_text :: "json \<Rightarrow> bool" where
  "date_without_text t =
     (case date_property t of
        Some (VArray vs) \<Rightarrow> join_text vs = None
      | Some (VObject members) \<Rightarrow> property members (units ''toString'') \<noteq> None
      | _ \<Rightarrow> False)"

section \<open>Writing the text of the slot\<close>

text \<open>
  \<open>JSON.stringify\<close> for the values of JSON whose strings are within the model: a
  string is quoted, with the escapes of \<open>QuoteJSONString\<close> for the quote, the
  backslash and the code units below 0x20; a finite number is written as
  \<open>Number::toString\<close> writes it and any other number as \<open>null\<close>; arrays and objects
  are written without white space.
\<close>

definition hex_digit :: "nat \<Rightarrow> char" where
  "hex_digit n = ''0123456789abcdef'' ! n"

definition quote_unit :: "nat \<Rightarrow> string" where
  "quote_unit u =
     (if u = 34 then [backslash, dquote]
      else if u = 92 then [backslash, backslash]
      else if u = 8 then [backslash, CHR ''b'']
      else if u = 12 then [backslash, CHR ''f'']
      else if u = 10 then [backslash, CHR ''n'']
      else if u = 13 then [backslash, CHR ''r'']
      else if u = 9 then [backslash, CHR ''t'']
      else if u < 32 then
        [backslash, CHR ''u'', CHR ''0'', CHR ''0'', hex_digit (u div 16), hex_digit (u mod 16)]
      else [char_of u])"

definition quote_text :: "ustring \<Rightarrow> string" where
  "quote_text u = dquote # concat (map quote_unit u) @ [dquote]"

fun JSON_stringify :: "json \<Rightarrow> string"
  and stringify_elements :: "json list \<Rightarrow> string"
  and stringify_members :: "(ustring \<times> json) list \<Rightarrow> string"
where
  "JSON_stringify VNull = ''null''"
| "JSON_stringify (VBool b) = (if b then ''true'' else ''false'')"
| "JSON_stringify (VNumber x) = (if is_finite x then numToString x else ''null'')"
| "JSON_stringify (VString u) = quote_text u"
| "JSON_stringify (VArray vs) = ''['' @ stringify_elements vs @ '']''"
| "JSON_stringify (VObject members) = ''{'' @ stringify_members members @ ''}''"
| "stringify_elements [] = []"
| "stringify_elements (v # vs) =
     JSON_stringify v @ (if vs = [] then [] else '','' @ stringify_elements vs)"
| "stringify_members [] = []"
| "stringify_members ((k, v) # members) =
     quote_text k @ '':'' @ JSON_stringify v
       @ (if members = [] then [] else '','' @ stringify_members members)"

text \<open>
  The values that are written and read back as they are: their strings are within the
  model, and their numbers are finite, in the range of the doubles and in the form in
  which numbers are parsed.
\<close>

fun printable :: "json \<Rightarrow> bool"
  and printable_elements :: "json list \<Rightarrow> bool"
  and printable_members :: "(ustring \<times> json) list \<Rightarrow> bool"
where
  "printable VNull = True"
| "printable (VBool b) = True"
| "printable (VNumber x) = (is_finite x \<and> in_double_range x \<and> canonical x = x)"
| "printable (VString u) = list_all (\<lambda>n. n < 256) u"
| "printable (VArray vs) = printable_elements vs"
| "printable (VObject members) = printable_members members"
| "printable_elements [] = True"
| "printable_elements (v # vs) = (printable v \<and> printable_elements vs)"
| "printable_members [] = True"
| "printable_members ((k, v) # members) =
     (list_all (\<lambda>n. n < 256) k \<and> printable v \<and> printable_members members)"

text \<open>
  The text that \<open>JSON.stringify(transactions)\<close> writes for a list of transactions
  (lines 38 and 125), from their stored form: for each an object with the keys \<open>id\<close>,
  \<open>date\<close>, \<open>amount\<close>, \<open>type\<close> and, unless it is absent, \<open>description\<close>; the date is
  written as \<open>toISOString\<close> gives it.
\<close>

definition json_of_stored :: "stored_txn \<Rightarrow> json" where
  "json_of_stored j =
     VObject
       ([(units ''id'', VString (units (j_id j))),
         (units ''date'', VString (units (toISOString (j_date j)))),
         (units ''amount'', (case j_amount j of JNull \<Rightarrow> VNull | JNum m e \<Rightarrow> VNumber (Fin m e))),
         (units ''type'', VString (units (type_text (j_type j))))]
        @ (case j_description j of
             None \<Rightarrow> []
           | Some d \<Rightarrow> [(units ''description'', VString (units d))]))"

definition stored_text :: "stored_txn list \<Rightarrow> string" where
  "stored_text js = JSON_stringify (VArray (map json_of_stored js))"

text \<open>
  The transaction that an object read from the slot is, when it has the properties of
  one: a string \<open>id\<close>, a valid \<open>Date\<close> for \<open>date\<close>, a number or \<open>null\<close> for
  \<open>amount\<close>, \<open>savings\<close> or \<open>spend\<close> for \<open>type\<close>, and a string or nothing for
  \<open>description\<close>.
\<close>

definition text_of :: "jsval option \<Rightarrow> string option" where
  "text_of p = (case p of Some (Plain (VString u)) \<Rightarrow> narrow u | _ \<Rightarrow> None)"

definition amount_of :: "jsval option \<Rightarrow> jsnum option option" where
  "amount_of p =
     (case p of
        Some (Plain VNull) \<Rightarrow> Some None
      | Some (Plain (VNumber x)) \<Rightarrow> Some (Some x)
      | _ \<Rightarrow> None)"

definition type_of_text :: "string option \<Rightarrow> txn_type option" where
  "type_of_text s =
     (if s = Some ''savings'' then Some Savings
      else if s = Some ''spend'' then Some Spend
      else None)"

definition transaction_of :: "(ustring \<times> jsval) list \<Rightarrow> Transaction option" where
  "transaction_of obj =
     (case (text_of (property obj (units ''id'')), property obj (units ''date''),
            amount_of (property obj (units ''amount'')),
            type_of_text (text_of (property obj (units ''type'')))) of
        (Some i, Some (DateObject (ValidDate tv)), Some a, Some ty) \<Rightarrow>
          if property obj (units ''description'') = None
          then Some \<lparr>txn_id = i, date = tv, amount = a, txn_type = ty, description = None\<rparr>
          else (case text_of (property obj (units ''description'')) of
                  None \<Rightarrow> None
                | Some d \<Rightarrow> Some \<lparr>txn_id = i, date = tv, amount = a, txn_type = ty, description = Some d\<rparr>)
      | _ \<Rightarrow> None)"

text \<open>
  The stored form with its amount in the form in which numbers are parsed: the same
  number, and the same text in the slot.
\<close>

definition canonical_stored :: "stored_txn \<Rightarrow> stored_txn" where
  "canonical_stored j =
     j\<lparr>j_amount := (case j_amount j of
                      JNull \<Rightarrow> JNull
                    | JNum m e \<Rightarrow> (case canonical (Fin m e) of Fin m' e' \<Rightarrow> JNum m' e' | _ \<Rightarrow> JNull))\<rparr>"

definition storable :: "stored_txn \<Rightarrow> bool" where
  "storable j =
     (\<bar>j_date j\<bar> \<le> maxTime
      \<and> (case j_amount j of JNull \<Rightarrow> True | JNum m e \<Rightarrow> in_double_range (Fin m e)))"

section \<open>Evaluating the model\<close>

text \<open>
  The two recursions on numerals unfold one step at a time on a numeral; with the
  definitions below the simplifier evaluates the model on concrete inputs.
\<close>

lemma show_nat_numeral:
  "show_nat (numeral k) =
     (if (numeral k :: nat) < 10 then [digit_char (numeral k)]
      else show_nat (numeral k div 10) @ [digit_char (numeral k mod 10)])"
  by (subst show_nat.simps) simp

lemma show_nat_0: "show_nat 0 = ''0''"
  by (subst show_nat.simps) (simp add: digit_char_def)

lemma show_nat_Suc:
  "show_nat (Suc n) =
     (if Suc n < 10 then [digit_char (Suc n)]
      else show_nat (Suc n div 10) @ [digit_char (Suc n mod 10)])"
  by (subst show_nat.simps) simp

lemma strip10_numeral:
  "strip10 (numeral k) e =
     (if (numeral k :: nat) mod 10 = 0 then strip10 (numeral k div 10) (e + 1) else (numeral k, e))"
  by (subst strip10.simps) simp

lemma strip10_0: "strip10 0 e = (0, e)"
  by (subst strip10.simps) simp

lemma strip10_1: "strip10 (Suc 0) e = (Suc 0, e)"
  by (subst strip10.simps) simp

lemmas text_eval = dquote_def comma_def newline_def is_ws_def trim_def str_includes_def
  is_upper_def lower_char_def toLowerCase_def is_digit_def digit_val_def digit_char_def
  show_nat_numeral show_nat_0 show_nat_Suc nat_of_digits_def show_int_def pad_start_def
  char_of_def bit_Suc_0_iff
  double_quotes_def escape_cell_def parseCSVLine_def

lemmas number_eval = strip10_numeral strip10_0 strip10_1 zeros_def exponent_text_def
  digits_toString_def decimal_toString_def numToString_def overflows_def finite_or_inf_def
  round_decimal_def starts_with_def signed_digits_def scan_exponent_def scan_fraction_def
  decimal_of_parts_def str_decimal_def parseFloat_def isNaN_def

lemmas date_eval = msPerDay_def maxTime_def Day_def DayFromYear_def InLeapYear_def
  YearFromDay_def YearFromTime_def DayWithinYear_def month_starts_def month_of_def
  MonthFromTime_def DateFromTime_def HourFromTime_def MinFromTime_def SecFromTime_def
  msFromTime_def year_text_def two_digits_def iso_date_text_def iso_time_text_def
  toISOString_def iso_fields_def iso_date_fields_def DaysInMonth_def MakeDay_def TimeClip_def
  iso_date_value_def parse_iso_date_def iso_time_value_def parse_iso_date_time_def newDate_def
  no_legacy_formats_def

lemmas service_eval = json_of_amount_def amount_of_json_def stringify_txn_def revive_txn_def
  error_message_def getTransactions_def normalize_description_def addTransaction_def
  clearTransactions_def null_amount_error_def type_text_def export_row_def csv_header_def
  csv_line_def csv_text_def exportToCSV_def make_row_def row_of_columns_def import_row_def
  non_blank_lines_def too_short_result_def no_rows_result_def caught_result_def
  imported_result_def merged_def finish_import_def import_lines_def importFromCSV_def
  truthy_number_def form_date_def addSavings_def as_stored_def new_rows_def
  apply_operation_def stored_ids_def fresh_id_def


lemmas json_eval = units_def narrow_def property_def backslash_def json_ws_def skip_ws_def
  hex_val_def hex4_def escape_unit_def digits_end_def int_end_def frac_end_def exp_end_def
  unsigned_end_def number_end_def scan_number_def JSON_parse_def date_of_number_def Date_parse_def
  date_of_value_def own_properties_def date_property_def revive_def getTransactions_text_def
  no_legacy_units_def date_without_text_def hex_digit_def quote_unit_def quote_text_def
  json_of_stored_def stored_text_def text_of_def amount_of_def type_of_text_def
  transaction_of_def canonical_stored_def storable_def is_finite_def

section \<open>Digits, the calendar, and the date text\<close>
lemma digit_char_props:
  assumes "d < 10"
  shows "is_digit (digit_char d)" and "digit_val (digit_char d) = d"
proof -
  from assms have "d \<in> {0, 1, 2, 3, 4, 5, 6, 7, 8, 9}" by auto
  then show "is_digit (digit_char d)" and "digit_val (digit_char d) = d"
    by (auto simp: digit_char_def is_digit_def digit_val_def)
qed

lemma show_nat_all_digits: "list_all is_digit (show_nat n)"
proof (induction n rule: show_nat.induct)
  case (1 n)
  show ?case
  proof (cases "n < 10")
    case True
    then show ?thesis by (subst show_nat.simps) (simp add: digit_char_props)
  next
    case False
    then have "list_all is_digit (show_nat (n div 10))" by (rule "1.IH")
    moreover have "is_digit (digit_char (n mod 10))" by (rule digit_char_props) simp
    ultimately show ?thesis using False by (subst show_nat.simps) simp
  qed
qed

lemma show_nat_nonempty: "show_nat n \<noteq> []"
  by (subst show_nat.simps) simp

lemma nat_of_digits_snoc: "nat_of_digits (s @ [c]) = 10 * nat_of_digits s + digit_val c"
  by (simp add: nat_of_digits_def)

lemma nat_of_digits_show_nat: "nat_of_digits (show_nat n) = n"
proof (induction n rule: show_nat.induct)
  case (1 n)
  show ?case
  proof (cases "n < 10")
    case True
    then show ?thesis
      by (subst show_nat.simps) (simp add: nat_of_digits_def digit_char_props)
  next
    case False
    then have "nat_of_digits (show_nat (n div 10)) = n div 10" by (rule "1.IH")
    moreover have "digit_val (digit_char (n mod 10)) = n mod 10" by (rule digit_char_props) simp
    ultimately show ?thesis using False
      by (subst show_nat.simps) (simp add: nat_of_digits_snoc)
  qed
qed

lemma length_show_nat: "n < 10 ^ k \<Longrightarrow> 0 < k \<Longrightarrow> length (show_nat n) \<le> k"
proof (induction n arbitrary: k rule: show_nat.induct)
  case (1 n)
  show ?case
  proof (cases "n < 10")
    case True
    then show ?thesis using "1.prems" by (subst show_nat.simps) simp
  next
    case False
    obtain j where k: "k = Suc j" using "1.prems" by (cases k) auto
    have "j \<noteq> 0"
    proof
      assume "j = 0"
      with "1.prems" k False show False by simp
    qed
    moreover have "n div 10 < 10 ^ j" using "1.prems" k by (simp add: less_mult_imp_div_less)
    ultimately have "length (show_nat (n div 10)) \<le> j" using "1.IH" [OF False] by simp
    then show ?thesis using False k by (subst show_nat.simps) simp
  qed
qed

lemma nat_of_digits_zeros: "nat_of_digits (replicate j (CHR ''0'') @ s) = nat_of_digits s"
proof -
  have "foldl (\<lambda>a c. 10 * a + digit_val c) 0 (replicate j (CHR ''0'')) = 0"
    by (induction j) (simp_all add: digit_val_def)
  then show ?thesis by (simp add: nat_of_digits_def)
qed

lemma pad_start_props:
  assumes "n < 10 ^ k" and "0 < k"
  shows "length (pad_start k (show_nat n)) = k"
    and "list_all is_digit (pad_start k (show_nat n))"
    and "nat_of_digits (pad_start k (show_nat n)) = n"
proof -
  have "length (show_nat n) \<le> k" using assms by (rule length_show_nat)
  then show "length (pad_start k (show_nat n)) = k" by (simp add: pad_start_def)
  have "is_digit (CHR ''0'')" by (simp add: is_digit_def)
  then show "list_all is_digit (pad_start k (show_nat n))"
    using show_nat_all_digits [of n] by (auto simp: pad_start_def list_all_iff)
  show "nat_of_digits (pad_start k (show_nat n)) = n"
    by (simp add: pad_start_def nat_of_digits_zeros nat_of_digits_show_nat)
qed

lemma div_lo: "0 < n \<Longrightarrow> n * (x div n) \<le> (x::int)"
  using mult_div_mod_eq [of n x] pos_mod_sign [of n x] by linarith

lemma div_hi: "0 < n \<Longrightarrow> (x::int) < n * (x div n) + n"
  using mult_div_mod_eq [of n x] pos_mod_bound [of n x] by linarith

lemma DayFromYear_lower: "146097 * (y - 1970) - 506 \<le> 400 * DayFromYear y"
proof -
  have "y - 1969 < 4 * ((y - 1969) div 4) + 4" by (rule div_hi) simp
  moreover have "100 * ((y - 1901) div 100) \<le> y - 1901" by (rule div_lo) simp
  moreover have "y - 1601 < 400 * ((y - 1601) div 400) + 400" by (rule div_hi) simp
  ultimately show ?thesis unfolding DayFromYear_def by (simp add: algebra_simps)
qed

lemma DayFromYear_upper: "400 * DayFromYear y \<le> 146097 * (y - 1970) + 589"
proof -
  have "4 * ((y - 1969) div 4) \<le> y - 1969" by (rule div_lo) simp
  moreover have "y - 1901 < 100 * ((y - 1901) div 100) + 100" by (rule div_hi) simp
  moreover have "400 * ((y - 1601) div 400) \<le> y - 1601" by (rule div_lo) simp
  ultimately show ?thesis unfolding DayFromYear_def by (simp add: algebra_simps)
qed

lemma YearFromDay_lower: "DayFromYear (YearFromDay d) \<le> d"
proof -
  define y0 where "y0 = 1970 + (400 * d) div 146097"
  have "146097 * ((400 * d) div 146097) \<le> 400 * d" by (rule div_lo) simp
  then have est: "146097 * (y0 - 1970) \<le> 400 * d"
    unfolding y0_def by simp
  have "DayFromYear (y0 - 1) \<le> d"
    using DayFromYear_upper [of "y0 - 1"] est by (simp add: algebra_simps)
  then show ?thesis
    unfolding YearFromDay_def Let_def y0_def [symmetric] by simp
qed

lemma YearFromDay_upper: "d < DayFromYear (YearFromDay d + 1)"
proof -
  define y0 where "y0 = 1970 + (400 * d) div 146097"
  have "400 * d < 146097 * ((400 * d) div 146097) + 146097" by (rule div_hi) simp
  then have est: "400 * d < 146097 * (y0 - 1970) + 146097"
    unfolding y0_def by simp
  have *: "d < DayFromYear (y0 + 2)"
    using DayFromYear_lower [of "y0 + 2"] est by (simp add: algebra_simps)
  have **: "y0 + 1 + 1 = y0 + 2" by simp
  show ?thesis
    unfolding YearFromDay_def Let_def y0_def [symmetric] using * by (simp add: **)
qed

lemma div_succ:
  assumes "0 < n"
  shows "((x::int) + 1) div n = x div n + (if (x + 1) mod n = 0 then 1 else 0)"
proof (cases "x mod n = n - 1")
  case True
  have eq: "x + 1 = n * (x div n + 1) + 0"
    using mult_div_mod_eq [of n x] True by (simp add: algebra_simps)
  have "(x + 1) div n = x div n + 1"
    by (rule int_div_pos_eq [OF eq]) (use assms in auto)
  moreover have "(x + 1) mod n = 0"
    by (rule int_mod_pos_eq [OF eq]) (use assms in auto)
  ultimately show ?thesis by simp
next
  case False
  have r: "0 \<le> x mod n" "x mod n < n"
    using assms by simp_all
  have eq: "x + 1 = n * (x div n) + (x mod n + 1)"
    using mult_div_mod_eq [of n x] by simp
  have "(x + 1) div n = x div n"
    by (rule int_div_pos_eq [OF eq]) (use r False in auto)
  moreover have "(x + 1) mod n = x mod n + 1"
    by (rule int_mod_pos_eq [OF eq]) (use r False in auto)
  ultimately show ?thesis using r by simp
qed

lemma mod0_shift:
  assumes "(n::int) dvd k"
  shows "(y - k) mod n = 0 \<longleftrightarrow> y mod n = 0"
  using assms by (simp add: mod_eq_0_iff_dvd dvd_diff_left_iff)

lemma mod0_coarser:
  assumes "(m::int) dvd n" and "y mod n = 0"
  shows "y mod m = 0"
  using assms by (metis dvd_trans mod_eq_0_iff_dvd)

lemma DayFromYear_step:
  "DayFromYear (y + 1) = DayFromYear y + (if InLeapYear y then 366 else 365)"
proof -
  have a: "(y + 1 - 1969) div 4 = (y - 1969) div 4 + (if y mod 4 = 0 then 1 else 0)"
    using div_succ [of 4 "y - 1969"] mod0_shift [of 4 1968 y] by (simp add: algebra_simps)
  have b: "(y + 1 - 1901) div 100 = (y - 1901) div 100 + (if y mod 100 = 0 then 1 else 0)"
    using div_succ [of 100 "y - 1901"] mod0_shift [of 100 1900 y] by (simp add: algebra_simps)
  have c: "(y + 1 - 1601) div 400 = (y - 1601) div 400 + (if y mod 400 = 0 then 1 else 0)"
    using div_succ [of 400 "y - 1601"] mod0_shift [of 400 1600 y] by (simp add: algebra_simps)
  have d: "y mod 100 = 0 \<Longrightarrow> y mod 4 = 0"
    by (rule mod0_coarser [of 4 100]) simp_all
  have e: "y mod 400 = 0 \<Longrightarrow> y mod 100 = 0"
    by (rule mod0_coarser [of 100 400]) simp_all
  define p4 where "p4 = (y mod 4 = 0)"
  define p100 where "p100 = (y mod 100 = 0)"
  define p400 where "p400 = (y mod 400 = 0)"
  have d': "p100 \<Longrightarrow> p4"
    unfolding p4_def p100_def by (rule d)
  have e': "p400 \<Longrightarrow> p100"
    unfolding p400_def p100_def by (rule e)
  show ?thesis
    unfolding DayFromYear_def InLeapYear_def a b c
    unfolding p4_def [symmetric] p100_def [symmetric] p400_def [symmetric]
    using d' e' by (cases p4; cases p100; cases p400) simp_all
qed

lemma DayWithinYear_bounds:
  "0 \<le> DayWithinYear t"
  "DayWithinYear t < (if InLeapYear (YearFromTime t) then 366 else 365)"
  using YearFromDay_lower [of "Day t"] YearFromDay_upper [of "Day t"]
    DayFromYear_step [of "YearFromDay (Day t)"]
  by (simp_all add: DayWithinYear_def YearFromTime_def split: if_splits)

lemma month_of_bounds:
  assumes "0 \<le> x" and "x < (if leap then 366 else 365)"
  shows "month_of leap x \<le> 11"
    and "month_starts leap ! month_of leap x \<le> x"
    and "x < month_starts leap ! Suc (month_of leap x)"
  using assms by (cases leap; simp add: month_of_def month_starts_def)+

lemma split_char_nonempty: "split_char sep s \<noteq> []"
  by (induction s) (auto split: list.splits)

lemma hd_split_char: "sep \<notin> set a \<Longrightarrow> hd (split_char sep (a @ sep # b)) = a"
  by (induction a) (auto split: list.splits simp: split_char_nonempty)

lemma is_digit_not_symbol:
  assumes "is_digit c"
  shows "c \<noteq> CHR ''T''" and "c \<noteq> CHR ''+''" and "c \<noteq> CHR ''-''"
  using assms by (auto simp: is_digit_def)

lemma digits_without: "list_all is_digit s \<Longrightarrow> CHR ''T'' \<notin> set s"
  by (auto simp: list_all_iff dest: is_digit_not_symbol)

lemma Day_range:
  assumes "\<bar>t\<bar> \<le> maxTime"
  shows "- 100000000 \<le> Day t" and "Day t \<le> 100000000"
proof -
  have "- 100000000 * msPerDay \<le> t" "t \<le> 100000000 * msPerDay"
    using assms by (simp_all add: maxTime_def msPerDay_def)
  then show "- 100000000 \<le> Day t" and "Day t \<le> 100000000"
    unfolding Day_def
    using div_lo [of msPerDay t] div_hi [of msPerDay t] by (simp_all add: msPerDay_def)
qed

lemma YearFromTime_range:
  assumes "\<bar>t\<bar> \<le> maxTime"
  shows "- 999999 \<le> YearFromTime t" and "YearFromTime t \<le> 999999"
proof -
  define d where "d = Day t"
  define q where "q = (400 * d) div 146097"
  have d: "- 100000000 \<le> d" "d \<le> 100000000"
    using Day_range [OF assms] by (simp_all add: d_def)
  have "146097 * q \<le> 400 * d" "400 * d < 146097 * q + 146097"
    unfolding q_def using div_lo [of 146097 "400 * d"] div_hi [of 146097 "400 * d"] by simp_all
  with d have q: "- 300000 \<le> q" "q \<le> 300000" by simp_all
  have "YearFromDay d \<in> {1970 + q - 1, 1970 + q, 1970 + q + 1}"
    unfolding YearFromDay_def Let_def q_def by simp
  with q show "- 999999 \<le> YearFromTime t" and "YearFromTime t \<le> 999999"
    unfolding YearFromTime_def d_def [symmetric] by auto
qed

lemma length_4_cases: "length xs = 4 \<Longrightarrow> \<exists>a b c d. xs = [a, b, c, d]"
  by (auto simp: length_Suc_conv numeral_eq_Suc)

lemma length_6_cases: "length xs = 6 \<Longrightarrow> \<exists>a b c d e f. xs = [a, b, c, d, e, f]"
  by (auto simp: length_Suc_conv numeral_eq_Suc)

lemma length_2_cases: "length xs = 2 \<Longrightarrow> \<exists>a b. xs = [a, b]"
  by (auto simp: length_Suc_conv numeral_eq_Suc)

lemma iso_fields_4:
  assumes "length ys = 4" "length ms = 2" "length ds = 2"
    and "list_all is_digit ys" "list_all is_digit ms" "list_all is_digit ds"
  shows "iso_date_fields (ys @ ''-'' @ ms @ ''-'' @ ds) = Some (False, ys, ms, ds)"
proof -
  obtain a b c d where ys: "ys = [a, b, c, d]" using length_4_cases assms(1) by blast
  obtain m1 m2 where ms: "ms = [m1, m2]" using length_2_cases assms(2) by blast
  obtain d1 d2 where ds: "ds = [d1, d2]" using length_2_cases assms(3) by blast
  have "a \<noteq> CHR ''+''" "a \<noteq> CHR ''-''"
    using assms(4) ys by (auto dest: is_digit_not_symbol)
  then show ?thesis
    using assms(4-6) by (simp add: iso_date_fields_def iso_fields_def ys ms ds)
qed

lemma iso_fields_6:
  assumes "length ys = 6" "length ms = 2" "length ds = 2"
    and "list_all is_digit ys" "list_all is_digit ms" "list_all is_digit ds"
  shows "iso_date_fields (''+'' @ ys @ ''-'' @ ms @ ''-'' @ ds) = Some (False, ys, ms, ds)"
    and "iso_date_fields (''-'' @ ys @ ''-'' @ ms @ ''-'' @ ds) = Some (True, ys, ms, ds)"
proof -
  obtain a b c d e f where ys: "ys = [a, b, c, d, e, f]" using length_6_cases assms(1) by blast
  obtain m1 m2 where ms: "ms = [m1, m2]" using length_2_cases assms(2) by blast
  obtain d1 d2 where ds: "ds = [d1, d2]" using length_2_cases assms(3) by blast
  show "iso_date_fields (''+'' @ ys @ ''-'' @ ms @ ''-'' @ ds) = Some (False, ys, ms, ds)"
    and "iso_date_fields (''-'' @ ys @ ''-'' @ ms @ ''-'' @ ds) = Some (True, ys, ms, ds)"
    using assms(4-6) by (simp_all add: iso_date_fields_def iso_fields_def ys ms ds)
qed

lemma month_length_le:
  assumes "m \<le> 11"
  shows "month_starts leap ! Suc m - month_starts leap ! m \<le> 31"
proof -
  from assms have "m = 0 \<or> m = 1 \<or> m = 2 \<or> m = 3 \<or> m = 4 \<or> m = 5 \<or> m = 6 \<or> m = 7
      \<or> m = 8 \<or> m = 9 \<or> m = 10 \<or> m = 11" by arith
  then show ?thesis by (auto simp: month_starts_def)
qed

lemma two_digits_props:
  assumes "0 \<le> n" and "n < 100"
  shows "length (two_digits n) = 2" and "list_all is_digit (two_digits n)"
    and "nat_of_digits (two_digits n) = nat n"
  using pad_start_props [of "nat n" 2] assms by (simp_all add: two_digits_def)

lemma date_fields_of_time:
  assumes "\<bar>t\<bar> \<le> maxTime"
  shows "MonthFromTime t \<le> 11"
    and "1 \<le> DateFromTime t"
    and "DateFromTime t \<le> DaysInMonth (YearFromTime t) (Suc (MonthFromTime t))"
    and "DateFromTime t \<le> 31"
    and "MakeDay (YearFromTime t) (Suc (MonthFromTime t)) (DateFromTime t) = Day t"
proof -
  define leap where "leap = InLeapYear (YearFromTime t)"
  define x where "x = DayWithinYear t"
  have x: "0 \<le> x" "x < (if leap then 366 else 365)"
    using DayWithinYear_bounds [of t] by (simp_all add: x_def leap_def)
  note mb = month_of_bounds [OF x]
  have M: "MonthFromTime t = month_of leap x"
    by (simp add: MonthFromTime_def leap_def x_def)
  show "MonthFromTime t \<le> 11" using mb(1) M by simp
  show "1 \<le> DateFromTime t"
    using mb(2) by (simp add: DateFromTime_def M leap_def [symmetric] x_def [symmetric])
  show le: "DateFromTime t \<le> DaysInMonth (YearFromTime t) (Suc (MonthFromTime t))"
    using mb(3) by (simp add: DateFromTime_def DaysInMonth_def M leap_def [symmetric] x_def [symmetric])
  show "DateFromTime t \<le> 31"
    using le month_length_le [OF mb(1), of leap]
    by (simp add: DaysInMonth_def M leap_def [symmetric])
  show "MakeDay (YearFromTime t) (Suc (MonthFromTime t)) (DateFromTime t) = Day t"
    by (simp add: MakeDay_def DateFromTime_def M leap_def [symmetric] x_def [symmetric])
      (simp add: x_def DayWithinYear_def)
qed

lemma year_text_fields:
  assumes "- 999999 \<le> y" and "y \<le> 999999"
    and "length ms = 2" "length ds = 2" "list_all is_digit ms" "list_all is_digit ds"
  shows "\<exists>ys. iso_date_fields (year_text y @ ''-'' @ ms @ ''-'' @ ds) = Some (y < 0, ys, ms, ds)
           \<and> int (nat_of_digits ys) = \<bar>y\<bar>"
proof (cases "0 \<le> y \<and> y \<le> 9999")
  case True
  then have "nat y < 10000" by linarith
  then have lt: "nat y < 10 ^ 4" by simp
  have "iso_date_fields (pad_start 4 (show_nat (nat y)) @ ''-'' @ ms @ ''-'' @ ds)
        = Some (False, pad_start 4 (show_nat (nat y)), ms, ds)"
    by (rule iso_fields_4) (use pad_start_props [OF lt] assms in simp_all)
  then show ?thesis
    using True pad_start_props(3) [OF lt] by (auto simp: year_text_def)
next
  case False
  have lt: "nat \<bar>y\<bar> < 10 ^ 6" using assms by simp
  note f = iso_fields_6 [of "pad_start 6 (show_nat (nat \<bar>y\<bar>))" ms ds]
  have pre: "length (pad_start 6 (show_nat (nat \<bar>y\<bar>))) = 6"
    "list_all is_digit (pad_start 6 (show_nat (nat \<bar>y\<bar>)))"
    using pad_start_props [OF lt] by simp_all
  show ?thesis
  proof (cases "y < 0")
    case True
    then show ?thesis
      using False f(2) [OF pre(1) assms(3,4) pre(2) assms(5,6)] pad_start_props(3) [OF lt]
      by (auto simp: year_text_def)
  next
    case nonneg: False
    then show ?thesis
      using False f(1) [OF pre(1) assms(3,4) pre(2) assms(5,6)] pad_start_props(3) [OF lt]
      by (auto simp: year_text_def)
  qed
qed

lemma year_text_no_T: "- 999999 \<le> y \<Longrightarrow> y \<le> 999999 \<Longrightarrow> CHR ''T'' \<notin> set (year_text y)"
proof -
  assume a: "- 999999 \<le> y" "y \<le> 999999"
  have "CHR ''T'' \<notin> set (pad_start 6 (show_nat (nat \<bar>y\<bar>)))"
    by (rule digits_without, rule pad_start_props) (use a in simp_all)
  moreover have "0 \<le> y \<and> y \<le> 9999 \<Longrightarrow> CHR ''T'' \<notin> set (pad_start 4 (show_nat (nat y)))"
    by (rule digits_without, rule pad_start_props(2) [of _ 4]) (simp_all add: nat_less_iff)
  ultimately show ?thesis by (auto simp: year_text_def)
qed

lemma toISOString_date_part:
  assumes "\<bar>t\<bar> \<le> maxTime"
  shows "hd (split_char (CHR ''T'') (toISOString t)) = iso_date_text t"
proof -
  note df = date_fields_of_time [OF assms]
  have "CHR ''T'' \<notin> set (two_digits (int (MonthFromTime t) + 1))"
    by (rule digits_without, rule two_digits_props) (use df in simp_all)
  moreover have "CHR ''T'' \<notin> set (two_digits (DateFromTime t))"
    by (rule digits_without, rule two_digits_props) (use df in simp_all)
  moreover have "CHR ''T'' \<notin> set (year_text (YearFromTime t))"
    using YearFromTime_range [OF assms] by (rule year_text_no_T)
  ultimately have "CHR ''T'' \<notin> set (iso_date_text t)"
    by (simp add: iso_date_text_def)
  then have "hd (split_char (CHR ''T'') (iso_date_text t @ CHR ''T'' # rest)) = iso_date_text t" for rest
    by (rule hd_split_char)
  moreover have "\<exists>rest. toISOString t = iso_date_text t @ CHR ''T'' # rest"
    by (simp add: toISOString_def iso_date_text_def)
  ultimately show ?thesis by auto
qed

lemma parse_iso_date_text:
  assumes "\<bar>t\<bar> \<le> maxTime"
  shows "parse_iso_date (iso_date_text t) = Some (Day t * msPerDay)"
proof -
  note df = date_fields_of_time [OF assms]
  note yr = YearFromTime_range [OF assms]
  define y where "y = YearFromTime t"
  define ms where "ms = two_digits (int (MonthFromTime t) + 1)"
  define ds where "ds = two_digits (DateFromTime t)"
  have m: "length ms = 2" "list_all is_digit ms" "nat_of_digits ms = Suc (MonthFromTime t)"
    unfolding ms_def using two_digits_props [of "int (MonthFromTime t) + 1"] df(1) by simp_all
  have d: "length ds = 2" "list_all is_digit ds" "int (nat_of_digits ds) = DateFromTime t"
    unfolding ds_def using two_digits_props [of "DateFromTime t"] df(2,4) by simp_all
  obtain ys where ys: "iso_date_fields (year_text y @ ''-'' @ ms @ ''-'' @ ds) = Some (y < 0, ys, ms, ds)"
      "int (nat_of_digits ys) = \<bar>y\<bar>"
    using year_text_fields [of y ms ds] yr m d unfolding y_def by blast
  have yv: "(if y < 0 then - int (nat_of_digits ys) else int (nat_of_digits ys)) = y"
    using ys(2) by simp
  have clip: "TimeClip (Day t * msPerDay) = Some (Day t * msPerDay)"
    using Day_range [OF assms] by (simp add: TimeClip_def maxTime_def msPerDay_def abs_le_iff)
  have "iso_date_value (y < 0) y (Suc (MonthFromTime t)) (DateFromTime t) = Some (Day t * msPerDay)"
    using df clip unfolding y_def by (auto simp: iso_date_value_def)
  then show ?thesis
    unfolding parse_iso_date_def iso_date_text_def y_def [symmetric] ms_def [symmetric] ds_def [symmetric]
    using ys(1) by (simp add: yv m d del: One_nat_def)
qed

text \<open>
  The year of a day is the largest year that starts on or before it, as ECMA-262
  defines \<open>YearFromTime\<close>.
\<close>

lemma DayFromYear_mono: "y \<le> y' \<Longrightarrow> DayFromYear y \<le> DayFromYear y'"
proof -
  have "DayFromYear y \<le> DayFromYear (y + int k)" for k
  proof (induction k)
    case 0
    then show ?case by simp
  next
    case (Suc k)
    have "DayFromYear (y + int k) \<le> DayFromYear (y + int k + 1)"
      using DayFromYear_step [of "y + int k"] by (simp split: if_splits)
    with Suc show ?case by (simp add: algebra_simps)
  qed
  from this [of "nat (y' - y)"] show "y \<le> y' \<Longrightarrow> DayFromYear y \<le> DayFromYear y'" by simp
qed

lemma YearFromDay_largest: "DayFromYear y \<le> d \<Longrightarrow> y \<le> YearFromDay d"
proof (rule ccontr)
  assume a: "DayFromYear y \<le> d" and "\<not> y \<le> YearFromDay d"
  then have "YearFromDay d + 1 \<le> y" by simp
  then have "DayFromYear (YearFromDay d + 1) \<le> DayFromYear y" by (rule DayFromYear_mono)
  with YearFromDay_upper [of d] a show False by simp
qed

section \<open>Printing and parsing numbers\<close>

lemma strip10_fixed: "s mod 10 \<noteq> 0 \<Longrightarrow> strip10 s e = (s, e)"
  by (subst strip10.simps) simp

lemma strip10_pow10: "s mod 10 \<noteq> 0 \<Longrightarrow> strip10 (s * 10 ^ j) e = (s, e + int j)"
proof (induction j arbitrary: e)
  case 0
  then show ?case by (simp add: strip10_fixed)
next
  case (Suc j)
  have "s \<noteq> 0" using Suc.prems by auto
  then have "strip10 (s * 10 ^ Suc j) e = strip10 (s * 10 ^ j) (e + 1)"
    by (subst strip10.simps) simp
  with Suc.IH [OF Suc.prems, of "e + 1"] show ?case by simp
qed

lemma strip10_result: "m \<noteq> 0 \<Longrightarrow> fst (strip10 m e) mod 10 \<noteq> 0"
proof (induction m e rule: strip10.induct)
  case (1 m e)
  show ?case
  proof (cases "m mod 10 = 0")
    case True
    then have "m div 10 \<noteq> 0" using "1.prems" by auto
    with "1.IH" True "1.prems" have "fst (strip10 (m div 10) (e + 1)) mod 10 \<noteq> 0" by simp
    then show ?thesis using True "1.prems" by (subst strip10.simps) simp
  next
    case False
    then show ?thesis by (subst strip10.simps) simp
  qed
qed

lemma nat_of_digits_append:
  "nat_of_digits (a @ b) = nat_of_digits a * 10 ^ length b + nat_of_digits b"
proof (induction b rule: rev_induct)
  case Nil
  then show ?case by (simp add: nat_of_digits_def)
next
  case (snoc c b)
  have "nat_of_digits (a @ b @ [c]) = 10 * nat_of_digits (a @ b) + digit_val c"
    using nat_of_digits_snoc [of "a @ b" c] by simp
  then show ?case using snoc.IH by (simp add: nat_of_digits_snoc algebra_simps)
qed

lemma nat_of_digits_zeros_only: "nat_of_digits (zeros j) = 0"
  using nat_of_digits_zeros [of j "[]"] by (simp add: zeros_def nat_of_digits_def)

lemma zeros_all_digits: "list_all is_digit (zeros j)"
  by (simp add: zeros_def list_all_iff is_digit_def)

lemma scan_digits:
  assumes "list_all is_digit ip" and "rest = [] \<or> \<not> is_digit (hd rest)"
  shows "takeWhile is_digit (ip @ rest) = ip" and "dropWhile is_digit (ip @ rest) = rest"
proof -
  have r: "takeWhile is_digit rest = []" "dropWhile is_digit rest = rest"
    using assms(2) by (cases rest; simp)+
  have all: "\<And>x. x \<in> set ip \<Longrightarrow> is_digit x" using assms(1) by (simp add: list_all_iff)
  show "takeWhile is_digit (ip @ rest) = ip"
    using all by (subst takeWhile_append2) (simp_all add: r)
  show "dropWhile is_digit (ip @ rest) = rest"
    using all by (subst dropWhile_append2) (simp_all add: r)
qed

lemma takeWhile_show_nat: "takeWhile is_digit (show_nat a) = show_nat a"
  using scan_digits(1) [OF show_nat_all_digits, of "[]" a] by simp

lemma scan_exponent_text: "scan_exponent (CHR ''e'' # exponent_text ex) = ex"
  by (simp add: scan_exponent_def exponent_text_def signed_digits_def takeWhile_show_nat
      show_nat_nonempty nat_of_digits_show_nat del: takeWhile_eq_all_conv)

lemma not_digit_symbols: "\<not> is_digit (CHR ''e'')" "\<not> is_digit (CHR ''.'')"
  by (simp_all add: is_digit_def)

text \<open>A literal without a fraction, with or without an exponent.\<close>

lemma parts_without_fraction:
  assumes "list_all is_digit ip" and "ip \<noteq> []"
  shows "decimal_of_parts neg (takeWhile is_digit ip) (scan_fraction (dropWhile is_digit ip))
           = round_decimal neg (nat_of_digits ip) 0"
    and "decimal_of_parts neg (takeWhile is_digit (ip @ CHR ''e'' # exponent_text ex))
             (scan_fraction (dropWhile is_digit (ip @ CHR ''e'' # exponent_text ex)))
           = round_decimal neg (nat_of_digits ip) ex"
proof -
  have t: "takeWhile is_digit ip = ip" "dropWhile is_digit ip = []"
    using scan_digits [OF assms(1), of "[]"] by simp_all
  show "decimal_of_parts neg (takeWhile is_digit ip) (scan_fraction (dropWhile is_digit ip))
           = round_decimal neg (nat_of_digits ip) 0"
    using assms(2) by (simp add: t decimal_of_parts_def scan_fraction_def scan_exponent_def)
  have "takeWhile is_digit (ip @ CHR ''e'' # exponent_text ex) = ip"
    "dropWhile is_digit (ip @ CHR ''e'' # exponent_text ex) = CHR ''e'' # exponent_text ex"
    using scan_digits [OF assms(1), of "CHR ''e'' # exponent_text ex"] by (simp_all add: not_digit_symbols)
  then show "decimal_of_parts neg (takeWhile is_digit (ip @ CHR ''e'' # exponent_text ex))
             (scan_fraction (dropWhile is_digit (ip @ CHR ''e'' # exponent_text ex)))
           = round_decimal neg (nat_of_digits ip) ex"
    using assms(2) scan_exponent_text [of ex]
    by (simp add: decimal_of_parts_def scan_fraction_def)
qed

text \<open>A literal with a fraction, with or without an exponent.\<close>

lemma parts_with_fraction:
  assumes "list_all is_digit ip" and "list_all is_digit fp" and "fp \<noteq> []"
  shows "decimal_of_parts neg (takeWhile is_digit (ip @ CHR ''.'' # fp))
             (scan_fraction (dropWhile is_digit (ip @ CHR ''.'' # fp)))
           = round_decimal neg (nat_of_digits (ip @ fp)) (- int (length fp))"
    and "decimal_of_parts neg (takeWhile is_digit (ip @ CHR ''.'' # fp @ CHR ''e'' # exponent_text ex))
             (scan_fraction (dropWhile is_digit (ip @ CHR ''.'' # fp @ CHR ''e'' # exponent_text ex)))
           = round_decimal neg (nat_of_digits (ip @ fp)) (ex - int (length fp))"
proof -
  have a: "takeWhile is_digit (ip @ CHR ''.'' # fp) = ip"
    "dropWhile is_digit (ip @ CHR ''.'' # fp) = CHR ''.'' # fp"
    using scan_digits [OF assms(1), of "CHR ''.'' # fp"] by (simp_all add: not_digit_symbols)
  have b: "takeWhile is_digit fp = fp" "dropWhile is_digit fp = []"
    using scan_digits [OF assms(2), of "[]"] by simp_all
  show "decimal_of_parts neg (takeWhile is_digit (ip @ CHR ''.'' # fp))
             (scan_fraction (dropWhile is_digit (ip @ CHR ''.'' # fp)))
           = round_decimal neg (nat_of_digits (ip @ fp)) (- int (length fp))"
    using assms(3) by (simp add: a b decimal_of_parts_def scan_fraction_def scan_exponent_def)
  have c: "takeWhile is_digit (ip @ CHR ''.'' # fp @ CHR ''e'' # exponent_text ex) = ip"
    "dropWhile is_digit (ip @ CHR ''.'' # fp @ CHR ''e'' # exponent_text ex) = CHR ''.'' # fp @ CHR ''e'' # exponent_text ex"
    using scan_digits [OF assms(1), of "CHR ''.'' # fp @ CHR ''e'' # exponent_text ex"]
    by (simp_all add: not_digit_symbols)
  have d: "takeWhile is_digit (fp @ CHR ''e'' # exponent_text ex) = fp"
    "dropWhile is_digit (fp @ CHR ''e'' # exponent_text ex) = CHR ''e'' # exponent_text ex"
    using scan_digits [OF assms(2), of "CHR ''e'' # exponent_text ex"] by (simp_all add: not_digit_symbols)
  show "decimal_of_parts neg (takeWhile is_digit (ip @ CHR ''.'' # fp @ CHR ''e'' # exponent_text ex))
             (scan_fraction (dropWhile is_digit (ip @ CHR ''.'' # fp @ CHR ''e'' # exponent_text ex)))
           = round_decimal neg (nat_of_digits (ip @ fp)) (ex - int (length fp))"
    using assms(3) scan_exponent_text [of ex]
    by (simp add: c d decimal_of_parts_def scan_fraction_def)
qed

lemma round_decimal_canonical:
  assumes "s mod 10 \<noteq> 0" and "\<not> overflows (s, e')"
  shows "round_decimal neg (s * 10 ^ j) (e' - int j) = Fin (if neg then - int s else int s) e'"
proof -
  have "s \<noteq> 0" using assms(1) by auto
  then show ?thesis
    using assms(2) by (simp add: round_decimal_def strip10_pow10 [OF assms(1)] finite_or_inf_def)
qed

lemma digits_toString_exponent:
  assumes "\<not> (int (length ds) \<le> n \<and> n \<le> 21)" "\<not> (0 < n \<and> n \<le> 21)" "\<not> (- 6 < n \<and> n \<le> 0)"
  shows "digits_toString ds n =
           (if length ds = 1 then ds @ CHR ''e'' # exponent_text (n - 1)
            else take 1 ds @ CHR ''.'' # drop 1 ds @ CHR ''e'' # exponent_text (n - 1))"
  using assms unfolding digits_toString_def by (simp only: if_False) simp

lemma parse_digits_toString:
  assumes "s mod 10 \<noteq> 0" and "\<not> overflows (s, e')"
  shows "decimal_of_parts neg (takeWhile is_digit (decimal_toString (s, e')))
           (scan_fraction (dropWhile is_digit (decimal_toString (s, e'))))
         = Fin (if neg then - int s else int s) e'"
proof -
  define ds where "ds = show_nat s"
  define k where "k = length ds"
  define n where "n = int k + e'"
  have ds: "list_all is_digit ds" "ds \<noteq> []" "nat_of_digits ds = s"
    by (simp_all add: ds_def show_nat_all_digits show_nat_nonempty nat_of_digits_show_nat)
  have k: "0 < k" using ds(2) by (simp add: k_def)
  note rc = round_decimal_canonical [OF assms, of neg]
  have body: "decimal_toString (s, e') = digits_toString ds n"
    by (simp add: decimal_toString_def ds_def n_def k_def)
  consider (a) "int k \<le> n" "n \<le> 21"
    | (b) "n < int k" "0 < n" "n \<le> 21"
    | (c) "n < int k" "- 6 < n" "n \<le> 0"
    | (d) "k = 1" "\<not> (int k \<le> n \<and> n \<le> 21)" "\<not> (0 < n \<and> n \<le> 21)" "\<not> (- 6 < n \<and> n \<le> 0)"
    | (e) "k \<noteq> 1" "\<not> (int k \<le> n \<and> n \<le> 21)" "\<not> (0 < n \<and> n \<le> 21)" "\<not> (- 6 < n \<and> n \<le> 0)"
    using k by linarith
  then show ?thesis
  proof cases
    case a
    define j where "j = nat (n - int k)"
    have e': "e' = int j" using a by (simp add: j_def n_def)
    have shape: "digits_toString ds n = ds @ zeros j"
      using a by (simp add: digits_toString_def k_def j_def)
    have "list_all is_digit (ds @ zeros j)" "ds @ zeros j \<noteq> []"
      using ds zeros_all_digits by simp_all
    from parts_without_fraction(1) [OF this, of neg]
    have "decimal_of_parts neg (takeWhile is_digit (ds @ zeros j))
            (scan_fraction (dropWhile is_digit (ds @ zeros j)))
          = round_decimal neg (s * 10 ^ j) 0"
      by (simp add: nat_of_digits_append nat_of_digits_zeros_only ds(3)) (simp add: zeros_def)
    moreover have "round_decimal neg (s * 10 ^ j) 0 = Fin (if neg then - int s else int s) e'"
      using rc [of j] e' by simp
    ultimately show ?thesis by (simp add: body shape)
  next
    case b
    define ip where "ip = take (nat n) ds"
    define fp where "fp = drop (nat n) ds"
    have shape: "digits_toString ds n = ip @ CHR ''.'' # fp"
      using b by (simp add: digits_toString_def k_def ip_def fp_def)
    have p: "list_all is_digit ip" "list_all is_digit fp" "fp \<noteq> []"
      using ds(1) b
      by (auto simp: ip_def fp_def k_def list_all_iff dest: in_set_takeD in_set_dropD)
    have len: "- int (length fp) = e'" using b by (simp add: fp_def n_def k_def)
    have "ip @ fp = ds" by (simp add: ip_def fp_def)
    with parts_with_fraction(1) [OF p, of neg] rc [of 0] show ?thesis
      by (simp add: body shape ds(3) len)
  next
    case c
    define j where "j = nat (- n)"
    have shape: "digits_toString ds n = ''0'' @ CHR ''.'' # (zeros j @ ds)"
      using c k by (simp add: digits_toString_def k_def j_def)
    have p: "list_all is_digit ''0''" "list_all is_digit (zeros j @ ds)" "zeros j @ ds \<noteq> []"
      using ds zeros_all_digits by (simp_all add: is_digit_def)
    have v: "nat_of_digits (''0'' @ zeros j @ ds) = s"
      using nat_of_digits_zeros [of "Suc j" ds] by (simp add: zeros_def ds(3))
    have len: "- int (length (zeros j @ ds)) = e'"
      using c by (simp add: zeros_def j_def n_def k_def)
    have "decimal_of_parts neg (takeWhile is_digit (''0'' @ CHR ''.'' # (zeros j @ ds)))
            (scan_fraction (dropWhile is_digit (''0'' @ CHR ''.'' # (zeros j @ ds))))
          = round_decimal neg s e'"
      unfolding parts_with_fraction(1) [OF p, of neg] v len ..
    with rc [of 0] show ?thesis
      by (simp add: body shape)
  next
    case d
    have shape: "digits_toString ds n = ds @ CHR ''e'' # exponent_text (n - 1)"
      using digits_toString_exponent [of ds n] d by (simp add: k_def)
    have ex: "n - 1 = e'" using d by (simp add: n_def)
    from parts_without_fraction(2) [OF ds(1,2), of neg "n - 1"] rc [of 0] show ?thesis
      by (simp add: body shape ds(3) ex)
  next
    case e
    define ip where "ip = take 1 ds"
    define fp where "fp = drop 1 ds"
    have shape: "digits_toString ds n = ip @ CHR ''.'' # fp @ CHR ''e'' # exponent_text (n - 1)"
      using digits_toString_exponent [of ds n] e by (simp add: k_def ip_def fp_def)
    have "1 < k" using e k by simp
    then have p: "list_all is_digit ip" "list_all is_digit fp" "fp \<noteq> []"
      using ds(1)
      by (auto simp: ip_def fp_def k_def list_all_iff dest: in_set_takeD in_set_dropD)
    have len: "n - 1 - int (length fp) = e'" using \<open>1 < k\<close> by (simp add: fp_def n_def k_def)
    have "ip @ fp = ds" by (simp add: ip_def fp_def)
    with parts_with_fraction(2) [OF p, of neg "n - 1"] rc [of 0] show ?thesis
      by (simp add: body shape ds(3) len)
  qed
qed

lemma digit_head_facts:
  assumes "is_digit c"
  shows "\<not> is_ws c" and "split_sign (c # r) = (False, c # r)"
    and "\<not> starts_with ''Infinity'' (c # r)"
  using assms by (auto simp: is_digit_def is_ws_def starts_with_def)

lemma digits_toString_head:
  assumes "list_all is_digit ds" and "ds \<noteq> []"
  shows "\<exists>c r. digits_toString ds n = c # r \<and> is_digit c"
proof -
  obtain d ds' where ds: "ds = d # ds'" using assms(2) by (cases ds) auto
  have d: "is_digit d" using assms(1) ds by simp
  have z: "is_digit (CHR ''0'')" by (simp add: is_digit_def)
  show ?thesis
    using d z by (auto simp: digits_toString_def ds take_Cons')
qed

lemma str_decimal_toString:
  assumes "s mod 10 \<noteq> 0" and "\<not> overflows (s, e')"
  shows "parseFloat (decimal_toString (s, e')) = Fin (int s) e'"
    and "parseFloat (''-'' @ decimal_toString (s, e')) = Fin (- int s) e'"
proof -
  obtain c r where body: "decimal_toString (s, e') = c # r" and c: "is_digit c"
    using digits_toString_head [OF show_nat_all_digits show_nat_nonempty]
    unfolding decimal_toString_def by (metis fst_conv)
  note h = digit_head_facts [OF c]
  have "str_decimal (False, c # r) = Fin (int s) e'"
    using parse_digits_toString [OF assms, of False] h(3) by (simp add: str_decimal_def body)
  then show "parseFloat (decimal_toString (s, e')) = Fin (int s) e'"
    using h by (simp add: parseFloat_def body)
  have "str_decimal (True, c # r) = Fin (- int s) e'"
    using parse_digits_toString [OF assms, of True] h(3) by (simp add: str_decimal_def body)
  then show "parseFloat (''-'' @ decimal_toString (s, e')) = Fin (- int s) e'"
    by (simp add: parseFloat_def body is_ws_def)
qed

lemma parseFloat_numToString:
  assumes "in_double_range x"
  shows "parseFloat (numToString x) = canonical x"
proof (cases x)
  case NaN
  then show ?thesis by (simp add: text_eval number_eval canonical_def)
next
  case PosInf
  then show ?thesis by (simp add: text_eval number_eval canonical_def)
next
  case NegInf
  then show ?thesis by (simp add: text_eval number_eval canonical_def)
next
  case (Fin m e)
  show ?thesis
  proof (cases "m = 0")
    case True
    then show ?thesis using Fin by (simp add: text_eval number_eval canonical_def)
  next
    case False
    define a where "a = nat \<bar>m\<bar>"
    obtain s e' where se: "strip10 a e = (s, e')" by (cases "strip10 a e")
    have "a \<noteq> 0" using False by (simp add: a_def)
    from strip10_result [OF this, of e] have s: "s mod 10 \<noteq> 0" by (simp add: se)
    have o: "\<not> overflows (s, e')"
      using assms Fin by (simp add: in_double_range_def a_def [symmetric] se del: abs_if)
    note rt = str_decimal_toString [OF s o]
    have str: "numToString x = (if m < 0 then ''-'' else []) @ decimal_toString (s, e')"
      unfolding Fin numToString_def jsnum.case a_def [symmetric] se using False by simp
    have can: "canonical x = Fin (if m < 0 then - int s else int s) e'"
      unfolding Fin canonical_def jsnum.case a_def [symmetric] se using False by simp
    show ?thesis
      unfolding str can using rt by (cases "m < 0") simp_all
  qed
qed

text \<open>The canonical form denotes the same number: only zeros move into the exponent.\<close>

lemma strip10_value: "strip10 m e = (s, e') \<Longrightarrow> e \<le> e' \<and> m = s * 10 ^ nat (e' - e)"
proof (induction m e arbitrary: s e' rule: strip10.induct)
  case (1 m e)
  show ?case
  proof (cases "m \<noteq> 0 \<and> m mod 10 = 0")
    case True
    then have "strip10 (m div 10) (e + 1) = (s, e')"
      using "1.prems" by (subst (asm) strip10.simps) simp
    from "1.IH" [OF True this] have ih: "e + 1 \<le> e'" "m div 10 = s * 10 ^ nat (e' - (e + 1))" by simp_all
    have "nat (e' - e) = Suc (nat (e' - (e + 1)))" using ih(1) by simp
    moreover have "m = 10 * (m div 10)" using True by auto
    ultimately show ?thesis using ih by simp
  next
    case False
    then have "strip10 m e = (m, e)" by (subst strip10.simps) auto
    with "1.prems" show ?thesis by simp
  qed
qed

lemma canonical_same_value:
  assumes "canonical (Fin m e) = Fin m' e'" and "m \<noteq> 0"
  shows "e \<le> e' \<and> m = m' * 10 ^ nat (e' - e)"
proof -
  define a where "a = nat \<bar>m\<bar>"
  obtain s f where se: "strip10 a e = (s, f)" by (cases "strip10 a e")
  from strip10_value [OF se] have v: "e \<le> f" "a = s * 10 ^ nat (f - e)" by simp_all
  have "int a = \<bar>m\<bar>" by (simp add: a_def)
  with v(2) have abs: "\<bar>m\<bar> = int s * 10 ^ nat (f - e)" by simp
  have can: "canonical (Fin m e) = Fin (if m < 0 then - int s else int s) f"
    unfolding canonical_def jsnum.case a_def [symmetric] se using assms(2) by simp
  with assms(1) have eq: "e' = f" "m' = (if m < 0 then - int s else int s)" by simp_all
  show ?thesis
  proof (cases "m < 0")
    case True
    then have "m = - \<bar>m\<bar>" by simp
    then show ?thesis using True v(1) abs eq by simp
  next
    case False
    then have "m = \<bar>m\<bar>" by simp
    then show ?thesis using False v(1) abs eq by simp
  qed
qed

lemma canonical_idem: "canonical (canonical x) = canonical x"
proof (cases x)
  case (Fin m e)
  show ?thesis
  proof (cases "m = 0")
    case True
    then show ?thesis using Fin by (simp add: canonical_def)
  next
    case False
    define a where "a = nat \<bar>m\<bar>"
    obtain s f where se: "strip10 a e = (s, f)" by (cases "strip10 a e")
    have "a \<noteq> 0" using False by (simp add: a_def)
    from strip10_result [OF this, of e] have s: "s mod 10 \<noteq> 0" by (simp add: se)
    then have s0: "s \<noteq> 0" by auto
    have can: "canonical x = Fin (if m < 0 then - int s else int s) f"
      unfolding Fin canonical_def jsnum.case a_def [symmetric] se using False by simp
    show ?thesis
      unfolding can using s0 strip10_fixed [OF s, of f]
      by (simp add: canonical_def)
  qed
qed (simp_all add: canonical_def)

text \<open>
  For a whole number below ten to the power 21 in magnitude, \<open>Number::toString\<close> is
  the decimal numeral: this is the text of a clock reading and of a time value in an id.
\<close>

lemma show_nat_times10: "n \<noteq> 0 \<Longrightarrow> show_nat (n * 10) = show_nat n @ ''0''"
  by (subst show_nat.simps) (simp add: digit_char_def)

lemma show_nat_pow10: "s \<noteq> 0 \<Longrightarrow> show_nat (s * 10 ^ j) = show_nat s @ zeros j"
proof (induction j)
  case 0
  then show ?case by (simp add: zeros_def)
next
  case (Suc j)
  have "show_nat (s * 10 ^ Suc j) = show_nat ((s * 10 ^ j) * 10)" by (simp add: algebra_simps)
  also have "\<dots> = show_nat (s * 10 ^ j) @ ''0''"
    by (rule show_nat_times10) (use Suc.prems in simp)
  also have "\<dots> = show_nat s @ zeros (Suc j)"
    using Suc by (simp add: zeros_def replicate_append_same)
  finally show ?case .
qed

lemma numToString_integer:
  assumes "\<bar>n\<bar> < 10 ^ 21"
  shows "numToString (Fin n 0) = show_int n"
proof (cases "n = 0")
  case True
  then show ?thesis by (simp add: numToString_def show_int_def show_nat_0)
next
  case False
  define a where "a = nat \<bar>n\<bar>"
  obtain s f where se: "strip10 a 0 = (s, f)" by (cases "strip10 a 0")
  have a0: "a \<noteq> 0" using False by (simp add: a_def)
  from strip10_value [OF se] have v: "0 \<le> f" "a = s * 10 ^ nat f" by simp_all
  have s0: "s \<noteq> 0" using v(2) a0 by auto
  have digits: "show_nat a = show_nat s @ zeros (nat f)"
    unfolding v(2) using s0 by (rule show_nat_pow10)
  have "a < 10 ^ 21" using assms by (simp add: a_def nat_less_iff)
  then have "length (show_nat a) \<le> 21" by (rule length_show_nat) simp
  then have len: "int (length (show_nat s)) + f \<le> 21"
    using v(1) by (simp add: digits zeros_def)
  have "decimal_toString (s, f) = show_nat s @ zeros (nat f)"
    using len v(1) by (simp add: decimal_toString_def digits_toString_def)
  then have body: "decimal_toString (strip10 a 0) = show_nat a"
    by (simp add: se digits)
  have str: "numToString (Fin n 0) = (if n < 0 then ''-'' else []) @ decimal_toString (strip10 a 0)"
    unfolding numToString_def jsnum.case a_def [symmetric] using False by simp
  show ?thesis
    unfolding str body by (cases "n < 0") (simp_all add: show_int_def a_def)
qed
section \<open>Quoting on export and on import\<close>

text \<open>
  C3. The description \<open>a,b"c\<close> is written as the quoted cell \<open>"a,b""c"\<close>, its inner
  quote doubled. Reading that cell back with the line parser of the import does not give
  the description again: the parser toggles its quote mode on each of the two quotes and
  keeps neither, so the cell comes back as \<open>a,bc\<close>.
\<close>

theorem quoted_cell_loses_inner_quote:
  "escape_cell (''a,b'' @ [dquote] @ ''c'') = [dquote] @ ''a,b'' @ [dquote, dquote] @ ''c'' @ [dquote]
   \<and> parseCSVLine (escape_cell (''a,b'' @ [dquote] @ ''c'')) = [''a,bc'']
   \<and> parseCSVLine (escape_cell (''a,b'' @ [dquote] @ ''c'')) \<noteq> [''a,b'' @ [dquote] @ ''c'']"
  by (simp add: escape_cell_def double_quotes_def str_includes_def parseCSVLine_def trim_def
      is_ws_def dquote_def comma_def newline_def)

section \<open>The date argument of an append\<close>

text \<open>
  C1. The form of the component computes a date from its date field and passes it to
  \<open>addTransaction\<close> as a fourth argument, but \<open>addTransaction\<close> has no date parameter
  and stamps every transaction with the clock. With the date field set to 2024-01-15
  (time value 1705276800000) and the clock at 1762128000002, the stored date is the
  clock's, not the date that was supplied.
\<close>

theorem supplied_date_is_dropped:
  "form_date no_legacy_formats 1762128000000 ''2024-01-15'' = ValidDate 1705276800000
   \<and> addTransaction 1762128000001 1762128000002 (Fin 100 0) Savings (Some ''gift'')
         [ValidDate 1705276800000] None
       = Inr (Some (Records [\<lparr>j_id = ''1762128000001'', j_date = 1762128000002,
                               j_amount = JNum 100 0, j_type = Savings,
                               j_description = Some ''gift''\<rparr>]))
   \<and> addSavings no_legacy_formats 1762128000000 1762128000001 1762128000002
         \<lparr>savingsAmount = Some (Fin 100 0), savingsDescription = ''gift'',
          savingsDate = ''2024-01-15''\<rparr> None
       = Inr (\<lparr>savingsAmount = Some (Fin 0 0), savingsDescription = [],
               savingsDate = ''2024-01-15''\<rparr>,
              Some (Records [\<lparr>j_id = ''1762128000001'', j_date = 1762128000002,
                               j_amount = JNum 100 0, j_type = Savings,
                               j_description = Some ''gift''\<rparr>]))"
  by (simp add: text_eval date_eval service_eval)

section \<open>Amounts that are not finite\<close>

text \<open>
  C2. The import rejects an amount only when it is NaN (\<open>isNaN(amount)\<close>, line 97). The
  amount column \<open>Infinity\<close> parses to an infinity, the row is admitted, and the stored
  record carries \<open>null\<close> for its amount, which is what \<open>JSON.stringify\<close> writes for an
  infinity; the list that is read back has no number there.
\<close>

theorem import_admits_infinite_amount:
  "parseFloat ''Infinity'' = PosInf
   \<and> importFromCSV no_legacy_formats
         (''Date,Amount,Type'' @ [newline] @ ''2024-01-15,Infinity,savings'') None
       = (imported_result 1,
          Some (Records [\<lparr>j_id = ''1705276800000-0'', j_date = 1705276800000, j_amount = JNull,
                           j_type = Savings, j_description = None\<rparr>]))
   \<and> getTransactions (snd (importFromCSV no_legacy_formats
         (''Date,Amount,Type'' @ [newline] @ ''2024-01-15,Infinity,savings'') None))
       = Inr [\<lparr>txn_id = ''1705276800000-0'', date = 1705276800000, amount = None,
               txn_type = Savings, description = None\<rparr>]"
  by (simp add: text_eval number_eval date_eval service_eval)

section \<open>Rows that the import skips\<close>

text \<open>
  C7. A row is skipped when it has fewer than three columns, when its date is invalid,
  when its amount is NaN, or when its type is neither \<open>savings\<close> nor \<open>spend\<close>. An amount
  column that parses to an infinity is not a finite number, and yet its row is not
  skipped: of the two data rows below the second has the amount \<open>2e308\<close>, which is
  beyond the doubles, and both rows are imported.
\<close>

theorem infinite_amount_row_is_not_skipped:
  "parseFloat ''2e308'' = PosInf
   \<and> import_row no_legacy_formats 1 ''2024-01-20,2e308,spend''
       = Some \<lparr>txn_id = ''1705708800000-1'', date = 1705708800000, amount = Some PosInf,
                txn_type = Spend, description = None\<rparr>
   \<and> fst (importFromCSV no_legacy_formats
         (''Date,Amount,Type,Description'' @ [newline] @ ''2024-01-15,100.50,savings,Monthly deposit''
            @ [newline] @ ''2024-01-20,2e308,spend'') None)
       = imported_result 2"
  by (simp add: text_eval number_eval date_eval service_eval)

text \<open>
  The example of the specification: five data rows, two with an amount that does not
  parse and one of type \<open>transfer\<close>; two transactions are imported.
\<close>

lemma five_rows_two_imported:
  "fst (importFromCSV no_legacy_formats
         (''Date,Amount,Type,Description'' @ [newline] @ ''2024-01-15,100.50,savings,Monthly deposit''
            @ [newline] @ ''2024-01-16,abc,savings''
            @ [newline] @ ''2024-01-17,12,transfer''
            @ [newline] @ ''2024-01-18,,spend,no amount''
            @ [newline] @ ''2024-01-20,25.00,spend,'' @ [dquote] @ ''Groceries, weekly'' @ [dquote]) None)
       = imported_result 2"
  by (simp add: text_eval number_eval date_eval service_eval)

text \<open>The three skip rules that hold as stated, and the rule for the amount as the code has it.\<close>

lemma skipped_rows:
  "length (parseCSVLine (trim data_line)) < 3 \<Longrightarrow> import_row legacy i data_line = None"
  "make_row i InvalidDate amount_val type_val description_val = None"
  "make_row i date_val NaN type_val description_val = None"
  "type_val \<noteq> ''savings'' \<Longrightarrow> type_val \<noteq> ''spend'' \<Longrightarrow>
     make_row i date_val amount_val type_val description_val = None"
  by (simp_all add: import_row_def row_of_columns_def make_row_def isNaN_def split: jsdate.splits)

text \<open>Exactly the rows that the loop passes over, as the code has it.\<close>

lemma import_row_skips_iff:
  "import_row legacy i data_line = None \<longleftrightarrow>
     trim data_line = []
     \<or> length (parseCSVLine (trim data_line)) < 3
     \<or> newDate legacy (parseCSVLine (trim data_line) ! 0) = InvalidDate
     \<or> parseFloat (parseCSVLine (trim data_line) ! 1) = NaN
     \<or> (trim (toLowerCase (parseCSVLine (trim data_line) ! 2)) \<noteq> ''savings''
        \<and> trim (toLowerCase (parseCSVLine (trim data_line) ! 2)) \<noteq> ''spend'')"
  by (simp add: import_row_def row_of_columns_def make_row_def isNaN_def split: jsdate.splits)

text \<open>An imported row has an amount, and the amount is not NaN.\<close>

lemma imported_amount_is_not_NaN:
  "import_row legacy i data_line = Some t \<Longrightarrow> \<exists>x. amount t = Some x \<and> x \<noteq> NaN"
  by (auto simp: import_row_def row_of_columns_def make_row_def isNaN_def
      split: jsdate.splits if_splits)

text \<open>The type column is compared in lower case and without the white space around it.\<close>

lemma type_column_is_lowered_and_trimmed:
  "import_row no_legacy_formats 0 ''2024-01-15, 5 ,  SaVings  ,  ''
     = Some \<lparr>txn_id = ''1705276800000-0'', date = 1705276800000, amount = Some (Fin 5 0),
              txn_type = Savings, description = None\<rparr>"
  by (simp add: text_eval number_eval date_eval service_eval)

section \<open>An import that fails\<close>

text \<open>
  C10. Whenever \<open>importFromCSV\<close> reports \<open>success = False\<close>, whatever the text and the
  slot, also a slot whose reading throws, the slot is as it was before the call.
\<close>

theorem failed_import_leaves_storage:
  "\<not> success (fst (importFromCSV legacy csvContent st)) \<Longrightarrow>
     snd (importFromCSV legacy csvContent st) = st"
  by (auto simp: importFromCSV_def import_lines_def finish_import_def imported_result_def
      split: sum.splits if_splits)

theorem failed_import_leaves_storage_witness:
  "\<not> success (fst (importFromCSV no_legacy_formats
        (''Date,Amount,Type'' @ [newline] @ ''2024-01-15,5,savings'') (Some (NotJson ''Unexpected token''))))
   \<and> snd (importFromCSV no_legacy_formats
        (''Date,Amount,Type'' @ [newline] @ ''2024-01-15,5,savings'') (Some (NotJson ''Unexpected token'')))
      = Some (NotJson ''Unexpected token'')"
proof -
  have failed: "\<not> success (fst (importFromCSV no_legacy_formats
        (''Date,Amount,Type'' @ [newline] @ ''2024-01-15,5,savings'') (Some (NotJson ''Unexpected token''))))"
    by (simp add: text_eval service_eval)
  from failed_import_leaves_storage [OF failed] failed show ?thesis by simp
qed


section \<open>The parser of JSON texts\<close>

text \<open>
  What a scanner leaves is shorter than what it was given, so the comparisons of lengths
  in the parser hold whenever they are reached.
\<close>

lemma scan_string_shorter: "scan_string r = Some (u, r') \<Longrightarrow> length r' < length r"
proof (induction r arbitrary: u r' rule: scan_string.induct)
  case 1
  then show ?case by simp
next
  case (2 c r)
  show ?case
  proof (cases "c = dquote")
    case True
    with "2.prems" show ?thesis by simp
  next
    case nq: False
    show ?thesis
    proof (cases "c = backslash")
      case True
      with nq "2.prems" obtain n k u' where e: "escape_unit r = Some (n, k)"
        and s: "scan_string (drop k r) = Some (u', r')"
        by (auto split: option.splits)
      from "2.IH"(1) [OF nq True e refl s] have "length r' < length (drop k r)" .
      then show ?thesis by simp
    next
      case False
      with nq "2.prems" obtain u' where s: "scan_string r = Some (u', r')" and "\<not> (of_char c :: nat) < 32"
        by (auto split: if_splits)
      from "2.IH"(2) [OF nq False this(2) s] show ?thesis by simp
    qed
  qed
qed

lemma digits_end_shorter: "digits_end s = Some r \<Longrightarrow> length r \<le> length s"
  by (auto simp: digits_end_def length_dropWhile_le split: if_splits)

lemma int_end_shorter: "int_end s = Some r \<Longrightarrow> length r < length s"
  using length_dropWhile_le [of is_digit "tl s"]
  by (cases s) (auto simp: int_end_def split: if_splits)

lemma frac_end_shorter: "frac_end s = Some r \<Longrightarrow> length r \<le> length s"
  by (cases s) (auto simp: frac_end_def dest!: digits_end_shorter split: if_splits)

lemma exp_end_shorter: "exp_end s = Some r \<Longrightarrow> length r \<le> length s"
  by (cases s; cases "tl s") (auto simp: exp_end_def dest!: digits_end_shorter split: if_splits)

lemma number_end_shorter:
  assumes "number_end s = Some r"
  shows "length r < length s"
proof -
  define s0 where "s0 = (case s of [] \<Rightarrow> s | c # t \<Rightarrow> if c = CHR ''-'' then t else s)"
  have l0: "length s0 \<le> length s" by (cases s) (simp_all add: s0_def)
  have n: "number_end s
      = (case int_end s0 of None \<Rightarrow> None
         | Some s1 \<Rightarrow> (case frac_end s1 of None \<Rightarrow> None | Some s2 \<Rightarrow> exp_end s2))"
    unfolding number_end_def unsigned_end_def s0_def ..
  from assms obtain s1 where a1: "int_end s0 = Some s1"
    by (cases "int_end s0") (simp_all add: n)
  from assms obtain s2 where a2: "frac_end s1 = Some s2"
    by (cases "frac_end s1") (simp_all add: n a1)
  from assms have a3: "exp_end s2 = Some r"
    by (simp add: n a1 a2)
  from int_end_shorter [OF a1] frac_end_shorter [OF a2] exp_end_shorter [OF a3] l0
  show ?thesis by simp
qed

lemma scan_number_shorter: "scan_number s = Some (x, r) \<Longrightarrow> length r < length s"
  by (auto simp: scan_number_def dest: number_end_shorter split: option.splits)

lemma skip_ws_shorter:
  assumes "skip_ws s = c # r"
  shows "length r < length s"
proof -
  have "length (skip_ws s) \<le> length s"
    unfolding skip_ws_def by (rule length_dropWhile_le)
  then show ?thesis
    unfolding assms by simp
qed

lemma parse_shorter:
  "(\<forall>v r. parse_value s = Some (v, r) \<longrightarrow> length r < length s)"
  "(\<forall>vs r. parse_elements s = Some (vs, r) \<longrightarrow> length r < length s)"
  "(\<forall>ms r. parse_members s = Some (ms, r) \<longrightarrow> length r < length s)"
proof (induction s and s and s rule: parse_value_parse_elements_parse_members.induct)
  case 1
  show ?case by simp
next
  case (2 c r)
  show ?case
  proof (intro allI impI)
    fix v r'
    assume p: "parse_value (c # r) = Some (v, r')"
    consider (arr) "c = CHR ''[''" | (obj) "c \<noteq> CHR ''[''" "c = CHR ''{''"
      | (str) "c \<noteq> CHR ''[''" "c \<noteq> CHR ''{''" "c = dquote"
      | (other) "c \<noteq> CHR ''[''" "c \<noteq> CHR ''{''" "c \<noteq> dquote" by blast
    then show "length r' < length (c # r)"
    proof cases
      case arr
      with p obtain d t where sk: "skip_ws r = d # t" by (auto split: list.splits)
      show ?thesis
      proof (cases "d = CHR '']''")
        case True
        with p arr sk skip_ws_shorter [OF sk] show ?thesis by auto
      next
        case False
        with p arr sk obtain vs where "parse_elements (d # t) = Some (vs, r')" by auto
        with "2.IH"(1) [OF arr sk False] skip_ws_shorter [OF sk] show ?thesis by auto
      qed
    next
      case obj
      with p obtain d t where sk: "skip_ws r = d # t" by (auto split: list.splits)
      show ?thesis
      proof (cases "d = CHR ''}''")
        case True
        with p obj sk skip_ws_shorter [OF sk] show ?thesis by auto
      next
        case False
        with p obj sk obtain ms where "parse_members (d # t) = Some (ms, r')" by auto
        with "2.IH"(2) [OF obj(1) obj(2) sk False] skip_ws_shorter [OF sk] show ?thesis by auto
      qed
    next
      case str
      with p obtain u where "scan_string r = Some (u, r')" by auto
      from scan_string_shorter [OF this] show ?thesis by simp
    next
      case other
      with p show ?thesis
        by (auto simp: starts_with_def dest: scan_number_shorter split: if_splits)
    qed
  qed
next
  case 3
  show ?case by simp
next
  case (4 c r)
  show ?case
  proof (intro allI impI)
    fix vs r'
    assume p: "parse_elements (c # r) = Some (vs, r')"
    then obtain v r1 where v: "parse_value (c # r) = Some (v, r1)" by (auto split: option.splits)
    with "4.IH"(1) have l1: "length r1 < length (c # r)" by blast
    from p v obtain d r2 where sk: "skip_ws r1 = d # r2" by (auto split: list.splits)
    have l2: "length r2 < length r1" using skip_ws_shorter [OF sk] .
    show "length r' < length (c # r)"
    proof (cases "d = CHR '']''")
      case True
      with p v sk l1 l2 show ?thesis by auto
    next
      case False
      with p v sk obtain ws where g: "d = comma \<and> length r2 < length (c # r)"
        and e: "parse_elements (skip_ws r2) = Some (ws, r')"
        by (auto split: if_splits)
      have "v = v \<and> r1 = r1" by simp
      from "4.IH"(2) [OF v refl sk False g] e have "length r' < length (skip_ws r2)" by blast
      moreover have "length (skip_ws r2) \<le> length r2" by (simp add: skip_ws_def length_dropWhile_le)
      ultimately show ?thesis using l1 l2 by simp
    qed
  qed
next
  case 5
  show ?case by simp
next
  case (6 q r)
  show ?case
  proof (intro allI impI)
    fix ms r'
    assume p: "parse_members (q # r) = Some (ms, r')"
    then have q: "\<not> q \<noteq> dquote" by (auto split: if_splits)
    from p q obtain k r1 where k: "scan_string r = Some (k, r1)" by (auto split: option.splits)
    have l1: "length r1 < length r" using scan_string_shorter [OF k] .
    from p q k obtain c r2 where sk: "skip_ws r1 = c # r2" by (auto split: list.splits)
    have l2: "length r2 < length r1" using skip_ws_shorter [OF sk] .
    from p q k sk have g: "c = CHR '':'' \<and> length r2 < length (q # r)" by (auto split: if_splits)
    from p q k sk g obtain v r3 where v: "parse_value (skip_ws r2) = Some (v, r3)"
      by (auto split: option.splits)
    from "6.IH"(1) [OF q k refl sk g] v have l3: "length r3 < length (skip_ws r2)" by blast
    have l3': "length (skip_ws r2) \<le> length r2" by (simp add: skip_ws_def length_dropWhile_le)
    from p q k sk g v obtain e r4 where sk2: "skip_ws r3 = e # r4" by (auto split: list.splits)
    have l4: "length r4 < length r3" using skip_ws_shorter [OF sk2] .
    show "length r' < length (q # r)"
    proof (cases "e = CHR ''}''")
      case True
      with p q k sk g v sk2 l1 l2 l3 l3' l4 show ?thesis by auto
    next
      case False
      with p q k sk g v sk2 obtain ws where g2: "e = comma \<and> length r4 < length (q # r)"
        and m: "parse_members (skip_ws r4) = Some (ws, r')"
        by (auto split: if_splits)
      from "6.IH"(2) [OF q k refl sk g v refl sk2 False g2] m
      have "length r' < length (skip_ws r4)" by blast
      moreover have "length (skip_ws r4) \<le> length r4" by (simp add: skip_ws_def length_dropWhile_le)
      ultimately show ?thesis using l1 l2 l3 l3' l4 by simp
    qed
  qed
qed

text \<open>The elements and the members without the comparisons of lengths.\<close>

lemma parse_elements_Cons:
  "parse_elements (c # r) =
     (case parse_value (c # r) of
        None \<Rightarrow> None
      | Some (v, r1) \<Rightarrow>
          (case skip_ws r1 of
             [] \<Rightarrow> None
           | d # r2 \<Rightarrow>
               if d = CHR '']'' then Some ([v], r2)
               else if d = comma then map_option (apfst (Cons v)) (parse_elements (skip_ws r2))
               else None))"
proof (cases "parse_value (c # r)")
  case None
  then show ?thesis by simp
next
  case (Some a)
  obtain v r1 where a: "a = (v, r1)" by (cases a)
  from parse_shorter(1) [of "c # r"] Some a have l1: "length r1 < length (c # r)" by blast
  show ?thesis
  proof (cases "skip_ws r1")
    case Nil
    with Some a show ?thesis by simp
  next
    case (Cons d r2)
    from skip_ws_shorter [OF Cons] l1 have "length r2 < length (c # r)" by simp
    with Some a Cons show ?thesis by simp
  qed
qed

lemma parse_members_Cons:
  "parse_members (q # r) =
     (if q \<noteq> dquote then None
      else
        (case scan_string r of
           None \<Rightarrow> None
         | Some (k, r1) \<Rightarrow>
             (case skip_ws r1 of
                [] \<Rightarrow> None
              | c # r2 \<Rightarrow>
                  if c = CHR '':'' then
                    (case parse_value (skip_ws r2) of
                       None \<Rightarrow> None
                     | Some (v, r3) \<Rightarrow>
                         (case skip_ws r3 of
                            [] \<Rightarrow> None
                          | e # r4 \<Rightarrow>
                              if e = CHR ''}'' then Some ([(k, v)], r4)
                              else if e = comma then map_option (apfst (Cons (k, v))) (parse_members (skip_ws r4))
                              else None))
                  else None)))"
proof (cases "q \<noteq> dquote")
  case True
  then show ?thesis by simp
next
  case q: False
  show ?thesis
  proof (cases "scan_string r")
    case None
    with q show ?thesis by simp
  next
    case (Some a)
    obtain k r1 where a: "a = (k, r1)" by (cases a)
    have l1: "length r1 < length r" using scan_string_shorter Some a by blast
    show ?thesis
    proof (cases "skip_ws r1")
      case Nil
      with q Some a show ?thesis by simp
    next
      case (Cons c r2)
      have l2: "length r2 < length (q # r)" using skip_ws_shorter [OF Cons] l1 by simp
      show ?thesis
      proof (cases "parse_value (skip_ws r2)")
        case None
        with q Some a Cons l2 show ?thesis by simp
      next
        case v: (Some b)
        obtain v r3 where b: "b = (v, r3)" by (cases b)
        from parse_shorter(1) [of "skip_ws r2"] v b have "length r3 < length (skip_ws r2)" by blast
        moreover have "length (skip_ws r2) \<le> length r2" by (simp add: skip_ws_def length_dropWhile_le)
        ultimately have l3: "length r3 < length (q # r)" using l2 by simp
        show ?thesis
        proof (cases "skip_ws r3")
          case Nil
          with q Some a Cons l2 v b show ?thesis by simp
        next
          case e: (Cons e r4)
          have "length r4 < length (q # r)" using skip_ws_shorter [OF e] l3 by simp
          with q Some a Cons l2 v b e show ?thesis by simp
        qed
      qed
    qed
  qed
qed

section \<open>Reading the slot\<close>









section \<open>What the program writes into the slot\<close>

text \<open>The date of a transaction is written as its ISO text and read back as the same time.\<close>

lemma length_3_cases: "length xs = 3 \<Longrightarrow> \<exists>a b c. xs = [a, b, c]"
  by (auto simp: length_Suc_conv numeral_eq_Suc)

lemma iso_date_text_no_T:
  assumes "\<bar>t\<bar> \<le> maxTime"
  shows "CHR ''T'' \<notin> set (iso_date_text t)"
proof -
  note df = date_fields_of_time [OF assms]
  have "CHR ''T'' \<notin> set (two_digits (int (MonthFromTime t) + 1))"
    by (rule digits_without, rule two_digits_props) (use df in simp_all)
  moreover have "CHR ''T'' \<notin> set (two_digits (DateFromTime t))"
    by (rule digits_without, rule two_digits_props) (use df in simp_all)
  moreover have "CHR ''T'' \<notin> set (year_text (YearFromTime t))"
    using YearFromTime_range [OF assms] by (rule year_text_no_T)
  ultimately show ?thesis
    by (simp add: iso_date_text_def)
qed

lemma iso_fields_no_T:
  assumes "iso_fields neg ylen body = Some r"
  shows "CHR ''T'' \<notin> set body"
proof -
  from assms obtain h1 m1 m2 h2 d1 d2 where d: "drop ylen body = [h1, m1, m2, h2, d1, d2]"
    by (auto simp: iso_fields_def split: list.splits)
  from assms have digs: "list_all is_digit (take ylen body @ [m1, m2, d1, d2])"
    and h: "h1 = CHR ''-''" "h2 = CHR ''-''"
    unfolding iso_fields_def d by (simp_all split: if_splits)
  have nd: "\<not> is_digit (CHR ''T'')" by (simp add: is_digit_def)
  have "set body = set (take ylen body) \<union> set (drop ylen body)"
    by (metis append_take_drop_id set_append)
  then have "set body = set (take ylen body) \<union> {h1, m1, m2, h2, d1, d2}"
    by (simp add: d)
  moreover have "\<forall>c\<in>set (take ylen body) \<union> {m1, m2, d1, d2}. is_digit c"
    using digs by (auto simp: list_all_iff)
  ultimately show ?thesis
    using nd h by auto
qed

lemma parse_iso_date_with_T:
  assumes "CHR ''T'' \<in> set s"
  shows "parse_iso_date s = None"
proof (cases "iso_date_fields s")
  case None
  then show ?thesis by (simp add: parse_iso_date_def)
next
  case (Some r)
  obtain c b where s: "s = c # b" using assms by (cases s) auto
  have "CHR ''T'' \<notin> set s"
  proof (cases "c = CHR ''+'' \<or> c = CHR ''-''")
    case True
    with Some s obtain neg where "iso_fields neg 6 b = Some r"
      by (auto simp: iso_date_fields_def split: if_splits)
    from iso_fields_no_T [OF this] True s show ?thesis by auto
  next
    case False
    with Some s have "iso_fields False 4 s = Some r"
      by (auto simp: iso_date_fields_def)
    from iso_fields_no_T [OF this] show ?thesis .
  qed
  with assms show ?thesis by simp
qed

lemma time_of_day_sum:
  "HourFromTime t * 3600000 + MinFromTime t * 60000 + SecFromTime t * 1000 + msFromTime t
     = t - Day t * msPerDay"
proof -
  have a: "t mod 60000 = 1000 * (t div 1000 mod 60) + t mod 1000"
    using zmod_zmult2_eq [of 60 t 1000] by simp
  have b: "t mod 3600000 = 60000 * (t div 60000 mod 60) + t mod 60000"
    using zmod_zmult2_eq [of 60 t 60000] by simp
  have c: "t mod 86400000 = 3600000 * (t div 3600000 mod 24) + t mod 3600000"
    using zmod_zmult2_eq [of 24 t 3600000] by simp
  have d: "t - (t div 86400000) * 86400000 = t mod 86400000"
    by (simp add: minus_div_mult_eq_mod)
  show ?thesis
    unfolding HourFromTime_def MinFromTime_def SecFromTime_def msFromTime_def Day_def msPerDay_def
    using a b c d by simp
qed

lemma iso_time_value_text:
  "iso_time_value (iso_time_text t @ ''Z'') = Some (t - Day t * msPerDay)"
proof -
  define hh where "hh = two_digits (HourFromTime t)"
  define mm where "mm = two_digits (MinFromTime t)"
  define ss where "ss = two_digits (SecFromTime t)"
  define ff where "ff = pad_start 3 (show_nat (nat (msFromTime t)))"
  have h: "length hh = 2" "list_all is_digit hh" "int (nat_of_digits hh) = HourFromTime t"
    "nat_of_digits hh \<le> 23"
    unfolding hh_def using two_digits_props [of "HourFromTime t"]
    by (simp_all add: HourFromTime_def nat_le_iff)
  have m: "length mm = 2" "list_all is_digit mm" "int (nat_of_digits mm) = MinFromTime t"
    "nat_of_digits mm \<le> 59"
    unfolding mm_def using two_digits_props [of "MinFromTime t"]
    by (simp_all add: MinFromTime_def nat_le_iff)
  have s: "length ss = 2" "list_all is_digit ss" "int (nat_of_digits ss) = SecFromTime t"
    "nat_of_digits ss \<le> 59"
    unfolding ss_def using two_digits_props [of "SecFromTime t"]
    by (simp_all add: SecFromTime_def nat_le_iff)
  have f: "length ff = 3" "list_all is_digit ff" "int (nat_of_digits ff) = msFromTime t"
    unfolding ff_def using pad_start_props [of "nat (msFromTime t)" 3]
    by (simp_all add: msFromTime_def nat_less_iff)
  obtain h1 h2 where hh: "hh = [h1, h2]" using length_2_cases h(1) by blast
  obtain m1 m2 where mm: "mm = [m1, m2]" using length_2_cases m(1) by blast
  obtain s1 s2 where ss: "ss = [s1, s2]" using length_2_cases s(1) by blast
  obtain f1 f2 f3 where ff: "ff = [f1, f2, f3]" using length_3_cases f(1) by blast
  have str: "iso_time_text t @ ''Z''
      = [h1, h2, CHR '':'', m1, m2, CHR '':'', s1, s2, CHR ''.'', f1, f2, f3, CHR ''Z'']"
    by (simp add: iso_time_text_def hh_def [symmetric] mm_def [symmetric] ss_def [symmetric]
        ff_def [symmetric] hh mm ss ff)
  have "iso_time_value [h1, h2, CHR '':'', m1, m2, CHR '':'', s1, s2, CHR ''.'', f1, f2, f3, CHR ''Z'']
      = Some (int (nat_of_digits hh) * 3600000 + int (nat_of_digits mm) * 60000
              + int (nat_of_digits ss) * 1000 + int (nat_of_digits ff))"
    using h(2,4) m(2,4) s(2,4) f(2) unfolding hh mm ss ff
    by (simp add: iso_time_value_def)
  then show ?thesis
    unfolding str h(3) m(3) s(3) f(3) time_of_day_sum .
qed

lemma newDate_toISOString:
  assumes "\<bar>t\<bar> \<le> maxTime"
  shows "newDate legacy (toISOString t) = ValidDate t"
proof -
  define d where "d = iso_date_text t"
  define tm where "tm = iso_time_text t @ ''Z''"
  have str: "toISOString t = d @ CHR ''T'' # tm"
    by (simp add: toISOString_def d_def tm_def)
  have noT: "CHR ''T'' \<notin> set d"
    unfolding d_def using assms by (rule iso_date_text_no_T)
  have "parse_iso_date (toISOString t) = None"
    by (rule parse_iso_date_with_T) (simp add: str)
  moreover have "dropWhile (\<lambda>c. c \<noteq> CHR ''T'') (d @ CHR ''T'' # tm) = CHR ''T'' # tm"
    using noT by (subst dropWhile_append2) auto
  moreover have "takeWhile (\<lambda>c. c \<noteq> CHR ''T'') (d @ CHR ''T'' # tm) = d"
    using noT by (subst takeWhile_append2) auto
  moreover have "parse_iso_date d = Some (Day t * msPerDay)"
    unfolding d_def using assms by (rule parse_iso_date_text)
  moreover have "iso_time_value tm = Some (t - Day t * msPerDay)"
    unfolding tm_def by (rule iso_time_value_text)
  moreover have "TimeClip (Day t * msPerDay + (t - Day t * msPerDay)) = Some t"
    using assms by (simp add: TimeClip_def)
  ultimately show ?thesis
    by (simp add: newDate_def parse_iso_date_time_def str del: takeWhile_eq_all_conv)
qed

text \<open>A string is quoted and read back.\<close>

lemma hex_val_hex_digit:
  assumes "n < 16"
  shows "hex_val (hex_digit n) = Some n"
proof -
  have "n \<in> {0, 1, 2, 3, 4, 5, 6, 7, 8, 9, 10, 11, 12, 13, 14, 15}"
    using assms by simp arith
  then show ?thesis
    by (auto simp: hex_digit_def hex_val_def is_digit_def)
qed

lemma of_char_char_of: "u < 256 \<Longrightarrow> (of_char (char_of u) :: nat) = u"
  by simp

lemma scan_quoted_unit:
  assumes "u < 256"
  shows "scan_string (quote_unit u @ rest) = map_option (apfst (Cons u)) (scan_string rest)"
proof -
  have bq: "backslash \<noteq> dquote" by (simp add: backslash_def dquote_def)
  consider (a) "u = 34 \<or> u = 92 \<or> u = 8 \<or> u = 12 \<or> u = 10 \<or> u = 13 \<or> u = 9"
    | (b) "u < 32" "\<not> (u = 34 \<or> u = 92 \<or> u = 8 \<or> u = 12 \<or> u = 10 \<or> u = 13 \<or> u = 9)"
    | (c) "32 \<le> u" "u \<noteq> 34" "u \<noteq> 92" by linarith
  then show ?thesis
  proof cases
    case a
    then show ?thesis
      using bq by (auto simp: quote_unit_def escape_unit_def backslash_def dquote_def)
  next
    case b
    have d: "u div 16 < 16" "u mod 16 < 16" using b(1) by simp_all
    have v: "((0 * 16 + 0) * 16 + u div 16) * 16 + u mod 16 = u" by simp
    have z: "hex_val (CHR ''0'') = Some 0" by (simp add: hex_val_def is_digit_def)
    have "hex4 [CHR ''0'', CHR ''0'', hex_digit (u div 16), hex_digit (u mod 16)] = Some u"
      unfolding hex4_def using v by (simp add: z hex_val_hex_digit [OF d(1)] hex_val_hex_digit [OF d(2)])
    then have "escape_unit (CHR ''u'' # CHR ''0'' # CHR ''0'' # hex_digit (u div 16) # hex_digit (u mod 16) # rest)
        = Some (u, 5)"
      by (simp add: escape_unit_def dquote_def backslash_def)
    then show ?thesis
      using b bq by (simp add: quote_unit_def)
  next
    case c
    have o: "(of_char (char_of u :: char) :: nat) = u" using assms by simp
    have "char_of u \<noteq> dquote"
    proof
      assume "char_of u = dquote"
      then have "(of_char (char_of u :: char) :: nat) = of_char dquote" by simp
      with o c show False by (simp add: dquote_def)
    qed
    moreover have "char_of u \<noteq> backslash"
    proof
      assume "char_of u = backslash"
      then have "(of_char (char_of u :: char) :: nat) = of_char backslash" by simp
      with o c show False by (simp add: backslash_def)
    qed
    ultimately show ?thesis
      using c o by (simp add: quote_unit_def)
  qed
qed

lemma scan_quoted:
  assumes "list_all (\<lambda>n. n < 256) u"
  shows "scan_string (concat (map quote_unit u) @ dquote # rest) = Some (u, rest)"
  using assms
proof (induction u)
  case Nil
  show ?case by simp
next
  case (Cons a u)
  then have a: "a < 256" and u: "list_all (\<lambda>n. n < 256) u" by simp_all
  have "scan_string (quote_unit a @ (concat (map quote_unit u) @ dquote # rest))
      = map_option (apfst (Cons a)) (scan_string (concat (map quote_unit u) @ dquote # rest))"
    using a by (rule scan_quoted_unit)
  then show ?case
    using Cons.IH [OF u] by simp
qed

lemma units_narrow: "list_all (\<lambda>n. n < 256) (units s)" "narrow (units s) = Some s"
proof -
  show "list_all (\<lambda>n. n < 256) (units s)"
    by (simp add: units_def list_all_iff)
  then show "narrow (units s) = Some s"
    by (simp add: narrow_def units_def comp_def)
qed

text \<open>A number is written and read back.\<close>

lemma show_nat_head:
  "n \<noteq> 0 \<Longrightarrow> \<exists>d r. show_nat n = d # r \<and> is_digit d \<and> d \<noteq> CHR ''0''"
proof (induction n rule: show_nat.induct)
  case (1 n)
  show ?case
  proof (cases "n < 10")
    case True
    with "1.prems" have "n \<in> {1, 2, 3, 4, 5, 6, 7, 8, 9}"
      by simp arith
    then show ?thesis
      by (subst show_nat.simps) (auto simp: digit_char_def is_digit_def)
  next
    case False
    then have "n div 10 \<noteq> 0" by simp
    from "1.IH" [OF False this] obtain d r where "show_nat (n div 10) = d # r" "is_digit d" "d \<noteq> CHR ''0''"
      by blast
    with False show ?thesis
      by (subst show_nat.simps) simp
  qed
qed

lemma after_number:
  assumes "rest = [] \<or> (\<not> is_digit (hd rest) \<and> hd rest \<notin> {CHR ''.'', CHR ''e'', CHR ''E''})"
  shows "frac_end rest = Some rest" and "exp_end rest = Some rest"
  using assms by (cases rest; simp add: frac_end_def exp_end_def)+

lemma digits_end_digits:
  assumes "list_all is_digit fp" and "fp \<noteq> []" and "rest = [] \<or> \<not> is_digit (hd rest)"
  shows "digits_end (fp @ rest) = Some rest"
  using scan_digits [OF assms(1,3)] assms(2) by (simp add: digits_end_def)

lemma int_end_digits:
  assumes "list_all is_digit ip" and "is_digit d" and "d \<noteq> CHR ''0''"
    and "rest = [] \<or> \<not> is_digit (hd rest)"
  shows "int_end (d # ip @ rest) = Some rest"
  using scan_digits(2) [OF assms(1,4)] assms(2,3) by (simp add: int_end_def)

lemma exp_end_text:
  assumes "rest = [] \<or> \<not> is_digit (hd rest)"
  shows "exp_end (CHR ''e'' # exponent_text ex @ rest) = Some rest"
proof -
  define a where "a = nat \<bar>ex\<bar>"
  have "digits_end (show_nat a @ rest) = Some rest"
    using show_nat_all_digits show_nat_nonempty assms by (rule digits_end_digits)
  then show ?thesis
    unfolding exponent_text_def a_def [symmetric] by (simp add: exp_end_def)
qed

lemma unsigned_end_toString:
  assumes "s \<noteq> 0"
    and d: "rest = [] \<or> (\<not> is_digit (hd rest) \<and> hd rest \<notin> {CHR ''.'', CHR ''e'', CHR ''E''})"
  shows "unsigned_end (decimal_toString (s, e') @ rest) = Some rest"
proof -
  define ds where "ds = show_nat s"
  define k where "k = length ds"
  define n where "n = int k + e'"
  have ds: "list_all is_digit ds" "ds \<noteq> []"
    by (simp_all add: ds_def show_nat_all_digits show_nat_nonempty)
  obtain h tl_ds where hd: "ds = h # tl_ds" "is_digit h" "h \<noteq> CHR ''0''"
    using show_nat_head [OF assms(1)] unfolding ds_def by blast
  have tl: "list_all is_digit tl_ds" using ds(1) hd(1) by simp
  have k: "0 < k" using ds(2) by (simp add: k_def)
  have d': "rest = [] \<or> \<not> is_digit (hd rest)" using d by auto
  note an = after_number [OF d]
  have nd: "\<not> is_digit (CHR ''.'')" "\<not> is_digit (CHR ''e'')" by (simp_all add: is_digit_def)
  have body: "decimal_toString (s, e') = digits_toString ds n"
    by (simp add: decimal_toString_def ds_def n_def k_def)
  consider (a) "int k \<le> n" "n \<le> 21"
    | (b) "n < int k" "0 < n" "n \<le> 21"
    | (c) "n < int k" "- 6 < n" "n \<le> 0"
    | (d) "k = 1" "\<not> (int k \<le> n \<and> n \<le> 21)" "\<not> (0 < n \<and> n \<le> 21)" "\<not> (- 6 < n \<and> n \<le> 0)"
    | (e) "k \<noteq> 1" "\<not> (int k \<le> n \<and> n \<le> 21)" "\<not> (0 < n \<and> n \<le> 21)" "\<not> (- 6 < n \<and> n \<le> 0)"
    using k by linarith
  then show ?thesis
  proof cases
    case a
    define j where "j = nat (n - int k)"
    have shape: "digits_toString ds n @ rest = h # (tl_ds @ zeros j) @ rest"
      using a by (simp add: digits_toString_def k_def j_def hd(1))
    have "list_all is_digit (tl_ds @ zeros j)" using tl zeros_all_digits by simp
    from int_end_digits [OF this hd(2,3) d'] show ?thesis
      unfolding body shape unsigned_end_def by (simp add: an)
  next
    case b
    obtain q where q: "nat n = Suc q" using b by (cases "nat n") auto
    define ip where "ip = take q tl_ds"
    define fp where "fp = drop q tl_ds"
    have shape: "digits_toString ds n @ rest = h # ip @ (CHR ''.'' # fp @ rest)"
      using b by (simp add: digits_toString_def k_def ip_def fp_def hd(1) q)
    have "q < length tl_ds" using b q by (simp add: k_def hd(1))
    then have p: "list_all is_digit ip" "list_all is_digit fp" "fp \<noteq> []"
      using tl
      by (auto simp: ip_def fp_def list_all_iff dest: in_set_takeD in_set_dropD)
    have i: "int_end (h # ip @ (CHR ''.'' # fp @ rest)) = Some (CHR ''.'' # fp @ rest)"
      by (rule int_end_digits [OF p(1) hd(2,3)]) (simp add: nd)
    have f: "frac_end (CHR ''.'' # fp @ rest) = Some rest"
      using digits_end_digits [OF p(2,3) d'] by (simp add: frac_end_def)
    show ?thesis
      unfolding body shape unsigned_end_def using i f an by simp
  next
    case c
    define j where "j = nat (- n)"
    have shape: "digits_toString ds n @ rest = CHR ''0'' # CHR ''.'' # (zeros j @ ds) @ rest"
      using c k by (simp add: digits_toString_def k_def j_def)
    have p: "list_all is_digit (zeros j @ ds)" "zeros j @ ds \<noteq> []"
      using ds zeros_all_digits by simp_all
    have i: "int_end (CHR ''0'' # CHR ''.'' # (zeros j @ ds) @ rest) = Some (CHR ''.'' # (zeros j @ ds) @ rest)"
      by (simp add: int_end_def)
    have f: "frac_end (CHR ''.'' # (zeros j @ ds) @ rest) = Some rest"
      using digits_end_digits [OF p d'] by (simp add: frac_end_def)
    show ?thesis
      unfolding body shape unsigned_end_def using i f an by simp
  next
    case d
    have tl_ds: "tl_ds = []" using d(1) by (simp add: k_def hd(1))
    have shape: "digits_toString ds n @ rest = h # [] @ (CHR ''e'' # exponent_text (n - 1) @ rest)"
      using digits_toString_exponent [of ds n] d by (simp add: k_def hd(1) tl_ds)
    have i: "int_end (h # [] @ (CHR ''e'' # exponent_text (n - 1) @ rest))
        = Some (CHR ''e'' # exponent_text (n - 1) @ rest)"
      by (rule int_end_digits [OF _ hd(2,3)]) (simp_all add: nd)
    have f: "frac_end (CHR ''e'' # exponent_text (n - 1) @ rest) = Some (CHR ''e'' # exponent_text (n - 1) @ rest)"
      by (simp add: frac_end_def)
    show ?thesis
      unfolding body shape unsigned_end_def using i f exp_end_text [OF d', of "n - 1"] by simp
  next
    case e
    have "1 < k" using e k by simp
    then have ne: "tl_ds \<noteq> []" by (auto simp: k_def hd(1))
    have shape: "digits_toString ds n @ rest
        = h # [] @ (CHR ''.'' # tl_ds @ (CHR ''e'' # exponent_text (n - 1) @ rest))"
      using digits_toString_exponent [of ds n] e by (simp add: k_def hd(1))
    have i: "int_end (h # [] @ (CHR ''.'' # tl_ds @ (CHR ''e'' # exponent_text (n - 1) @ rest)))
        = Some (CHR ''.'' # tl_ds @ (CHR ''e'' # exponent_text (n - 1) @ rest))"
      by (rule int_end_digits [OF _ hd(2,3)]) (simp_all add: nd)
    have f: "frac_end (CHR ''.'' # tl_ds @ (CHR ''e'' # exponent_text (n - 1) @ rest))
        = Some (CHR ''e'' # exponent_text (n - 1) @ rest)"
      using digits_end_digits [OF tl ne, of "CHR ''e'' # exponent_text (n - 1) @ rest"]
      by (simp add: frac_end_def nd)
    show ?thesis
      unfolding body shape unsigned_end_def using i f exp_end_text [OF d', of "n - 1"] by simp
  qed
qed

lemma numToString_head:
  assumes "is_finite x"
  shows "\<exists>c r. numToString x = c # r \<and> (is_digit c \<or> c = CHR ''-'')"
proof -
  obtain m e where x: "x = Fin m e" using assms by (cases x) (simp_all add: is_finite_def)
  have z: "is_digit (CHR ''0'')" by (simp add: is_digit_def)
  obtain c r where "decimal_toString (strip10 (nat \<bar>m\<bar>) e) = c # r" "is_digit c"
    using digits_toString_head [OF show_nat_all_digits show_nat_nonempty]
    unfolding decimal_toString_def by blast
  then show ?thesis
    using z by (auto simp: x numToString_def)
qed

lemma scan_number_numToString:
  assumes "is_finite x" and "in_double_range x"
    and d: "rest = [] \<or> (\<not> is_digit (hd rest) \<and> hd rest \<notin> {CHR ''.'', CHR ''e'', CHR ''E''})"
  shows "scan_number (numToString x @ rest) = Some (canonical x, rest)"
proof -
  obtain m e where x: "x = Fin m e" using assms(1) by (cases x) (simp_all add: is_finite_def)
  obtain c r where hd: "numToString x = c # r" "is_digit c \<or> c = CHR ''-''"
    using numToString_head [OF assms(1)] by blast
  have nws: "\<not> is_ws c" using hd(2) by (auto simp: is_ws_def is_digit_def)
  have val: "str_decimal (split_sign (numToString x)) = canonical x"
    using parseFloat_numToString [OF assms(2)] nws by (simp add: parseFloat_def hd(1))
  have "number_end (numToString x @ rest) = Some rest"
  proof (cases "m = 0")
    case True
    have "int_end (CHR ''0'' # rest) = Some rest" by (simp add: int_end_def)
    then show ?thesis
      using True after_number [OF d] by (simp add: x numToString_def number_end_def unsigned_end_def)
  next
    case False
    define a where "a = nat \<bar>m\<bar>"
    obtain s e' where se: "strip10 a e = (s, e')" by (cases "strip10 a e")
    have "a \<noteq> 0" using False by (simp add: a_def)
    from strip10_result [OF this, of e] have "s mod 10 \<noteq> 0" by (simp add: se)
    then have s: "s \<noteq> 0" by auto
    note u = unsigned_end_toString [OF s d, of e']
    obtain c' r' where body: "decimal_toString (s, e') = c' # r'" "is_digit c'"
      using digits_toString_head [OF show_nat_all_digits show_nat_nonempty]
      unfolding decimal_toString_def by (metis fst_conv)
    have c': "c' \<noteq> CHR ''-''" using body(2) by (auto simp: is_digit_def)
    have str: "numToString x = (if m < 0 then ''-'' else []) @ decimal_toString (s, e')"
      unfolding x numToString_def jsnum.case a_def [symmetric] se using False by simp
    show ?thesis
    proof (cases "m < 0")
      case True
      then show ?thesis using u by (simp add: str number_end_def)
    next
      case nonneg: False
      then show ?thesis using u c' by (simp add: str number_end_def body(1))
    qed
  qed
  then show ?thesis
    using val by (simp add: scan_number_def)
qed

lemma numToString_canonical: "numToString (canonical x) = numToString x"
proof (cases x)
  case (Fin m e)
  show ?thesis
  proof (cases "m = 0")
    case True
    then show ?thesis by (simp add: Fin canonical_def numToString_def)
  next
    case False
    define a where "a = nat \<bar>m\<bar>"
    obtain s e' where se: "strip10 a e = (s, e')" by (cases "strip10 a e")
    have "a \<noteq> 0" using False by (simp add: a_def)
    from strip10_result [OF this, of e] have s: "s mod 10 \<noteq> 0" by (simp add: se)
    then have s0: "s \<noteq> 0" by auto
    have can: "canonical x = Fin (if m < 0 then - int s else int s) e'"
      unfolding Fin canonical_def jsnum.case a_def [symmetric] se using False by simp
    have str: "numToString x = (if m < 0 then ''-'' else []) @ decimal_toString (s, e')"
      unfolding Fin numToString_def jsnum.case a_def [symmetric] se using False by simp
    show ?thesis
      unfolding can str using s0 by (simp add: numToString_def strip10_fixed [OF s])
  qed
qed (simp_all add: canonical_def)

text \<open>
  Every value that can be printed is read back from its text, so that the parser accepts
  every text that \<open>JSON.stringify\<close> writes for such a value.
\<close>

lemma skip_ws_head: "\<not> json_ws c \<Longrightarrow> skip_ws (c # r) = c # r"
  by (simp add: skip_ws_def)

lemma stringify_head:
  "\<exists>c r. JSON_stringify v = c # r \<and> \<not> json_ws c \<and> c \<noteq> CHR '']'' \<and> c \<noteq> CHR ''}''
     \<and> c \<noteq> comma \<and> c \<noteq> CHR '':''"
proof (cases v)
  case (VNumber x)
  show ?thesis
  proof (cases "is_finite x")
    case True
    from numToString_head [OF True] obtain c r where "numToString x = c # r" "is_digit c \<or> c = CHR ''-''"
      by blast
    then show ?thesis
      using True VNumber by (auto simp: json_ws_def comma_def is_digit_def)
  next
    case False
    then show ?thesis using VNumber by (simp add: json_ws_def comma_def)
  qed
qed (simp_all add: json_ws_def comma_def quote_text_def dquote_def)

lemma stringify_elements_head:
  assumes "vs \<noteq> []"
  shows "\<exists>c r. stringify_elements vs = c # r \<and> \<not> json_ws c \<and> c \<noteq> CHR '']''"
proof -
  obtain v ws where vs: "vs = v # ws" using assms by (cases vs) auto
  obtain c r where "JSON_stringify v = c # r" "\<not> json_ws c" "c \<noteq> CHR '']''"
    using stringify_head [of v] by blast
  then show ?thesis by (simp add: vs)
qed

lemma stringify_members_head:
  assumes "members \<noteq> []"
  shows "\<exists>r. stringify_members members = dquote # r"
proof -
  obtain k v ms where "members = (k, v) # ms" using assms by (cases members) auto
  then show ?thesis by (simp add: quote_text_def)
qed

lemma parse_literals:
  "parse_value (''null'' @ rest) = Some (VNull, rest)"
  "parse_value (''true'' @ rest) = Some (VBool True, rest)"
  "parse_value (''false'' @ rest) = Some (VBool False, rest)"
  by (simp_all add: starts_with_def dquote_def)

lemma parse_number_text:
  assumes "is_finite x" and "in_double_range x"
    and "rest = [] \<or> hd rest \<in> {comma, CHR '']'', CHR ''}''}"
  shows "parse_value (numToString x @ rest) = Some (VNumber (canonical x), rest)"
proof -
  obtain c r where hd: "numToString x = c # r" "is_digit c \<or> c = CHR ''-''"
    using numToString_head [OF assms(1)] by blast
  have d: "rest = [] \<or> (\<not> is_digit (hd rest) \<and> hd rest \<notin> {CHR ''.'', CHR ''e'', CHR ''E''})"
    using assms(3) by (auto simp: comma_def is_digit_def)
  have "scan_number (c # r @ rest) = Some (canonical x, rest)"
    using scan_number_numToString [OF assms(1,2) d] by (simp add: hd(1))
  moreover have "c \<noteq> CHR ''[''" "c \<noteq> CHR ''{''" "c \<noteq> dquote" "c \<noteq> CHR ''n''" "c \<noteq> CHR ''t''"
    "c \<noteq> CHR ''f''"
    using hd(2) by (auto simp: is_digit_def dquote_def)
  ultimately show ?thesis
    by (simp add: hd(1) starts_with_def)
qed

lemma parse_string_text:
  assumes "list_all (\<lambda>n. n < 256) u"
  shows "parse_value (quote_text u @ rest) = Some (VString u, rest)"
  using scan_quoted [OF assms, of rest] by (simp add: quote_text_def dquote_def)

lemma parse_stringify:
  "printable v \<longrightarrow>
     (\<forall>rest. rest = [] \<or> hd rest \<in> {comma, CHR '']'', CHR ''}''}
        \<longrightarrow> parse_value (JSON_stringify v @ rest) = Some (v, rest))"
  "vs \<noteq> [] \<longrightarrow> printable_elements vs \<longrightarrow>
     (\<forall>rest. parse_elements (stringify_elements vs @ CHR '']'' # rest) = Some (vs, rest))"
  "members \<noteq> [] \<longrightarrow> printable_members members \<longrightarrow>
     (\<forall>rest. parse_members (stringify_members members @ CHR ''}'' # rest) = Some (members, rest))"
  supply parse_value.simps [simp del] parse_elements.simps [simp del] parse_members.simps [simp del]
proof (induction v and vs and members rule: JSON_stringify_stringify_elements_stringify_members.induct)
  case 1
  show ?case
    unfolding JSON_stringify.simps by (intro impI allI) (rule parse_literals)
next
  case (2 b)
  show ?case
  proof (cases b)
    case True
    have "JSON_stringify (VBool b) = ''true''" using True by simp
    then show ?thesis using True by (simp only: parse_literals simp_thms)
  next
    case False
    have "JSON_stringify (VBool b) = ''false''" using False by simp
    then show ?thesis using False by (simp only: parse_literals simp_thms)
  qed
next
  case (3 x)
  show ?case using parse_number_text [of x] by simp
next
  case (4 u)
  show ?case using parse_string_text [of u] by simp
next
  case (5 vs)
  show ?case
  proof (intro impI allI)
    fix rest
    assume p: "printable (VArray vs)"
    have eq: "JSON_stringify (VArray vs) @ rest = CHR ''['' # (stringify_elements vs @ CHR '']'' # rest)"
      by simp
    show "parse_value (JSON_stringify (VArray vs) @ rest) = Some (VArray vs, rest)"
    proof (cases "vs = []")
      case True
      have "skip_ws (CHR '']'' # rest) = CHR '']'' # rest"
        by (rule skip_ws_head) (simp add: json_ws_def)
      then show ?thesis
        unfolding eq parse_value.simps(2) using True by simp
    next
      case False
      obtain c r where h: "stringify_elements vs = c # r" "\<not> json_ws c" "c \<noteq> CHR '']''"
        using stringify_elements_head [OF False] by blast
      have sk: "skip_ws (c # r @ CHR '']'' # rest) = c # r @ CHR '']'' # rest"
        using h(2) by (rule skip_ws_head)
      have "parse_elements (c # r @ CHR '']'' # rest) = Some (vs, rest)"
        using "5.IH" False p by (simp add: h(1))
      then show ?thesis
        unfolding eq parse_value.simps(2) using h(3) by (simp add: h(1) sk)
    qed
  qed
next
  case (6 members)
  show ?case
  proof (intro impI allI)
    fix rest
    assume p: "printable (VObject members)"
    have eq: "JSON_stringify (VObject members) @ rest
        = CHR ''{'' # (stringify_members members @ CHR ''}'' # rest)"
      by simp
    show "parse_value (JSON_stringify (VObject members) @ rest) = Some (VObject members, rest)"
    proof (cases "members = []")
      case True
      have "skip_ws (CHR ''}'' # rest) = CHR ''}'' # rest"
        by (rule skip_ws_head) (simp add: json_ws_def)
      then show ?thesis
        unfolding eq parse_value.simps(2) using True by simp
    next
      case False
      obtain r where h: "stringify_members members = dquote # r"
        using stringify_members_head [OF False] by blast
      have sk: "skip_ws (dquote # r @ CHR ''}'' # rest) = dquote # r @ CHR ''}'' # rest"
        by (rule skip_ws_head) (simp add: json_ws_def dquote_def)
      have "parse_members (dquote # r @ CHR ''}'' # rest) = Some (members, rest)"
        using "6.IH" False p by (simp add: h)
      then show ?thesis
        unfolding eq parse_value.simps(2) by (simp add: h sk) (simp add: dquote_def)
    qed
  qed
next
  case 7
  show ?case by simp
next
  case (8 v vs)
  show ?case
  proof (intro impI allI)
    fix rest
    assume p: "printable_elements (v # vs)"
    then have pv: "printable v" and pvs: "printable_elements vs" by simp_all
    obtain c r where h: "JSON_stringify v = c # r" using stringify_head [of v] by blast
    define tail where "tail = (if vs = [] then [] else '','' @ stringify_elements vs) @ CHR '']'' # rest"
    have d: "tail = [] \<or> hd tail \<in> {comma, CHR '']'', CHR ''}''}"
      by (simp add: tail_def comma_def)
    have "parse_value (JSON_stringify v @ tail) = Some (v, tail)"
      using "8.IH"(1) pv d by blast
    then have v: "parse_value (c # r @ tail) = Some (v, tail)"
      by (simp add: h)
    have str: "stringify_elements (v # vs) @ CHR '']'' # rest = c # r @ tail"
      by (simp add: tail_def h)
    show "parse_elements (stringify_elements (v # vs) @ CHR '']'' # rest) = Some (v # vs, rest)"
    proof (cases "vs = []")
      case True
      have "skip_ws (CHR '']'' # rest) = CHR '']'' # rest"
        by (rule skip_ws_head) (simp add: json_ws_def)
      then have sk: "skip_ws tail = CHR '']'' # rest"
        using True by (simp add: tail_def)
      show ?thesis
        unfolding str by (subst parse_elements_Cons) (simp add: v sk True)
    next
      case False
      obtain c' r' where h': "stringify_elements vs = c' # r'" "\<not> json_ws c'"
        using stringify_elements_head [OF False] by blast
      have t: "tail = comma # c' # r' @ CHR '']'' # rest"
        using False by (simp add: tail_def h'(1) comma_def)
      have "skip_ws (comma # c' # r' @ CHR '']'' # rest) = comma # c' # r' @ CHR '']'' # rest"
        by (rule skip_ws_head) (simp add: json_ws_def comma_def)
      then have sk1: "skip_ws tail = comma # c' # r' @ CHR '']'' # rest"
        by (simp only: t)
      have sk2: "skip_ws (c' # r' @ CHR '']'' # rest) = c' # r' @ CHR '']'' # rest"
        using h'(2) by (rule skip_ws_head)
      have e: "parse_elements (c' # r' @ CHR '']'' # rest) = Some (vs, rest)"
        using "8.IH"(2) False pvs by (simp add: h'(1))
      have nc: "comma \<noteq> CHR '']''" by (simp add: comma_def)
      show ?thesis
        unfolding str by (subst parse_elements_Cons) (simp add: v sk1 sk2 e nc)
    qed
  qed
next
  case 9
  show ?case by simp
next
  case (10 k v members)
  show ?case
  proof (intro impI allI)
    fix rest
    assume p: "printable_members ((k, v) # members)"
    then have pk: "list_all (\<lambda>n. n < 256) k" and pv: "printable v" and pms: "printable_members members"
      by simp_all
    obtain c r where h: "JSON_stringify v = c # r" "\<not> json_ws c" using stringify_head [of v] by blast
    define tail where "tail = (if members = [] then [] else '','' @ stringify_members members) @ CHR ''}'' # rest"
    have d: "tail = [] \<or> hd tail \<in> {comma, CHR '']'', CHR ''}''}"
      by (simp add: tail_def comma_def)
    have "parse_value (JSON_stringify v @ tail) = Some (v, tail)"
      using "10.IH"(1) pv d by blast
    then have v: "parse_value (c # r @ tail) = Some (v, tail)"
      by (simp add: h(1))
    have str: "stringify_members ((k, v) # members) @ CHR ''}'' # rest
        = dquote # (concat (map quote_unit k) @ dquote # (CHR '':'' # c # r @ tail))"
      by (simp add: tail_def h(1) quote_text_def)
    have key: "scan_string (concat (map quote_unit k) @ dquote # (CHR '':'' # c # r @ tail))
        = Some (k, CHR '':'' # c # r @ tail)"
      using pk by (rule scan_quoted)
    have sk0: "skip_ws (CHR '':'' # c # r @ tail) = CHR '':'' # c # r @ tail"
      by (rule skip_ws_head) (simp add: json_ws_def)
    have sk1: "skip_ws (c # r @ tail) = c # r @ tail"
      using h(2) by (rule skip_ws_head)
    show "parse_members (stringify_members ((k, v) # members) @ CHR ''}'' # rest)
        = Some ((k, v) # members, rest)"
    proof (cases "members = []")
      case True
      have "skip_ws (CHR ''}'' # rest) = CHR ''}'' # rest"
        by (rule skip_ws_head) (simp add: json_ws_def)
      then have sk: "skip_ws tail = CHR ''}'' # rest"
        using True by (simp add: tail_def)
      show ?thesis
        unfolding str by (subst parse_members_Cons) (simp add: key sk0 sk1 v sk True)
    next
      case False
      obtain r' where h': "stringify_members members = dquote # r'"
        using stringify_members_head [OF False] by blast
      have t: "tail = comma # dquote # r' @ CHR ''}'' # rest"
        using False by (simp add: tail_def h' comma_def)
      have "skip_ws (comma # dquote # r' @ CHR ''}'' # rest) = comma # dquote # r' @ CHR ''}'' # rest"
        by (rule skip_ws_head) (simp add: json_ws_def comma_def)
      then have sk2: "skip_ws tail = comma # dquote # r' @ CHR ''}'' # rest"
        by (simp only: t)
      have sk3: "skip_ws (dquote # r' @ CHR ''}'' # rest) = dquote # r' @ CHR ''}'' # rest"
        by (rule skip_ws_head) (simp add: json_ws_def dquote_def)
      have e: "parse_members (dquote # r' @ CHR ''}'' # rest) = Some (members, rest)"
        using "10.IH"(2) False pms by (simp add: h')
      have nc: "comma \<noteq> CHR ''}''" by (simp add: comma_def)
      show ?thesis
        unfolding str by (subst parse_members_Cons) (simp add: key sk0 sk1 v sk2 sk3 e nc)
    qed
  qed
qed

lemma JSON_parse_stringify:
  assumes "printable v"
  shows "JSON_parse (JSON_stringify v) = Some v"
proof -
  obtain c r where h: "JSON_stringify v = c # r" "\<not> json_ws c" using stringify_head [of v] by blast
  have "parse_value (JSON_stringify v @ []) = Some (v, [])"
    using parse_stringify(1) [of v] assms by blast
  then have "parse_value (c # r) = Some (v, [])" by (simp add: h(1))
  moreover have "skip_ws (c # r) = c # r" using h(2) by (rule skip_ws_head)
  ultimately show ?thesis
    by (simp add: JSON_parse_def h(1) skip_ws_def)
qed

text \<open>
  The classes of the slot and its text. The text that the program writes for a list of
  transactions is read, by \<open>getTransactions\<close> on texts, as one object for each of them
  with the properties of that transaction: what \<open>getTransactions\<close> returns for the
  class \<open>Records\<close> is what is read from the text that the class stands for. A number
  is read back in the form in which numbers are parsed.
\<close>

lemma canonical_Fin: "\<exists>m' e'. canonical (Fin m e) = Fin m' e'"
  by (simp add: canonical_def)

lemma in_double_range_canonical:
  assumes "in_double_range x"
  shows "in_double_range (canonical x)"
proof (cases x)
  case (Fin m e)
  show ?thesis
  proof (cases "m = 0")
    case True
    then show ?thesis
      by (simp add: Fin canonical_def in_double_range_def strip10_0 overflows_def)
  next
    case False
    define a where "a = nat \<bar>m\<bar>"
    obtain s e' where se: "strip10 a e = (s, e')" by (cases "strip10 a e")
    have "a \<noteq> 0" using False by (simp add: a_def)
    from strip10_result [OF this, of e] have s: "s mod 10 \<noteq> 0" by (simp add: se)
    have can: "canonical x = Fin (if m < 0 then - int s else int s) e'"
      unfolding Fin canonical_def jsnum.case a_def [symmetric] se using False by simp
    have "\<not> overflows (s, e')"
      using assms by (simp add: Fin in_double_range_def a_def [symmetric] se del: abs_if)
    then show ?thesis
      unfolding can in_double_range_def by (simp add: strip10_fixed [OF s])
  qed
qed (simp_all add: canonical_def in_double_range_def)

lemma printable_json_of_stored:
  assumes "storable j"
  shows "printable (json_of_stored (canonical_stored j))"
proof -
  have u: "list_all (\<lambda>n. n < 256) (units s)" for s by (rule units_narrow)
  have amt: "printable (case j_amount (canonical_stored j) of JNull \<Rightarrow> VNull | JNum m e \<Rightarrow> VNumber (Fin m e))"
  proof (cases "j_amount j")
    case JNull
    then show ?thesis by (simp add: canonical_stored_def)
  next
    case (JNum m e)
    obtain m' e' where c: "canonical (Fin m e) = Fin m' e'" using canonical_Fin by blast
    have "in_double_range (Fin m e)" using assms JNum by (simp add: storable_def)
    from in_double_range_canonical [OF this] have "in_double_range (Fin m' e')" by (simp add: c)
    moreover have "canonical (Fin m' e') = Fin m' e'"
      using canonical_idem [of "Fin m e"] by (simp add: c)
    ultimately show ?thesis
      using JNum by (simp add: canonical_stored_def c is_finite_def)
  qed
  show ?thesis
    using amt by (cases "j_description j") (simp_all add: json_of_stored_def u canonical_stored_def)
qed

lemma stringify_canonical_stored:
  "JSON_stringify (json_of_stored (canonical_stored j)) = JSON_stringify (json_of_stored j)"
proof -
  have "JSON_stringify (case j_amount (canonical_stored j) of JNull \<Rightarrow> VNull | JNum m e \<Rightarrow> VNumber (Fin m e))
      = JSON_stringify (case j_amount j of JNull \<Rightarrow> VNull | JNum m e \<Rightarrow> VNumber (Fin m e))"
  proof (cases "j_amount j")
    case JNull
    then show ?thesis by (simp add: canonical_stored_def)
  next
    case (JNum m e)
    obtain m' e' where c: "canonical (Fin m e) = Fin m' e'" using canonical_Fin by blast
    have "numToString (Fin m' e') = numToString (Fin m e)"
      using numToString_canonical [of "Fin m e"] by (simp add: c)
    then show ?thesis
      using JNum by (simp add: canonical_stored_def c is_finite_def)
  qed
  then show ?thesis
    by (cases "j_description j") (simp_all add: json_of_stored_def canonical_stored_def)
qed

lemma stored_text_canonical: "stored_text (map canonical_stored js) = stored_text js"
proof -
  have "stringify_elements (map json_of_stored (map canonical_stored js))
      = stringify_elements (map json_of_stored js)"
  proof (induction js)
    case Nil
    show ?case by simp
  next
    case (Cons j js)
    then show ?case by (simp add: stringify_canonical_stored)
  qed
  then show ?thesis by (simp add: stored_text_def)
qed

lemma printable_stored_list:
  assumes "\<forall>j\<in>set js. storable j"
  shows "printable_elements (map json_of_stored (map canonical_stored js))"
  using assms by (induction js) (simp_all add: printable_json_of_stored)

text \<open>The object that is read for a stored transaction, and the transaction it is.\<close>

lemma revive_json_of_stored:
  assumes "\<bar>j_date j\<bar> \<le> maxTime"
  shows "revive legacy (json_of_stored j)
     = Inr (map (apsnd Plain) (own_properties (json_of_stored j))
            @ [(units ''date'', DateObject (ValidDate (j_date j)))])"
proof -
  have "date_property (json_of_stored j) = Some (VString (units (toISOString (j_date j))))"
    by (cases "j_description j") (simp_all add: json_of_stored_def date_property_def property_def units_def)
  moreover have "Date_parse legacy (units (toISOString (j_date j))) = ValidDate (j_date j)"
    using assms by (simp add: Date_parse_def units_narrow newDate_toISOString)
  ultimately show ?thesis
    by (simp add: revive_def date_of_value_def json_of_stored_def)
qed

lemma transaction_of_revived:
  "transaction_of (map (apsnd Plain) (own_properties (json_of_stored j))
      @ [(units ''date'', DateObject (ValidDate (j_date j)))])
   = Some (revive_txn j)"
proof -
  have n: "narrow (units s) = Some s" for s by (rule units_narrow)
  have k: "units ''id'' \<noteq> units ''date''" "units ''amount'' \<noteq> units ''date''"
    "units ''type'' \<noteq> units ''date''" "units ''description'' \<noteq> units ''date''"
    "units ''id'' \<noteq> units ''amount''" "units ''id'' \<noteq> units ''type''"
    "units ''id'' \<noteq> units ''description''" "units ''amount'' \<noteq> units ''type''"
    "units ''amount'' \<noteq> units ''description''" "units ''type'' \<noteq> units ''description''"
    by (simp_all add: units_def)
  have ty: "type_of_text (Some (type_text (j_type j))) = Some (j_type j)"
    by (cases "j_type j") (simp_all add: type_of_text_def type_text_def)
  have am: "amount_of (Some (Plain (case j_amount j of JNull \<Rightarrow> VNull | JNum m e \<Rightarrow> VNumber (Fin m e))))
      = Some (amount_of_json (j_amount j))"
    by (cases "j_amount j") (simp_all add: amount_of_def amount_of_json_def)
  show ?thesis
  proof (cases "j_description j")
    case None
    then show ?thesis
      using k ty am
      by (simp add: transaction_of_def own_properties_def json_of_stored_def property_def
          text_of_def n revive_txn_def k [symmetric])
  next
    case (Some d)
    then show ?thesis
      using k ty am
      by (simp add: transaction_of_def own_properties_def json_of_stored_def property_def
          text_of_def n revive_txn_def k [symmetric])
  qed
qed

lemma reading_what_was_written:
  assumes "\<forall>j\<in>set js. storable j"
  shows "\<exists>objs. getTransactions_text legacy (Some (stored_text js)) = Inr objs
           \<and> map transaction_of objs = map (\<lambda>j. Some (revive_txn (canonical_stored j))) js
           \<and> getTransactions (Some (Records (map canonical_stored js)))
               = Inr (map (\<lambda>j. revive_txn (canonical_stored j)) js)"
proof -
  define cs where "cs = map canonical_stored js"
  define obj where "obj = (\<lambda>j. map (apsnd Plain) (own_properties (json_of_stored j))
      @ [(units ''date'', DateObject (ValidDate (j_date j)))])"
  have dates: "\<forall>j\<in>set cs. \<bar>j_date j\<bar> \<le> maxTime"
    using assms by (auto simp: cs_def storable_def canonical_stored_def)
  have "printable (VArray (map json_of_stored cs))"
    using printable_stored_list [OF assms] by (simp add: cs_def)
  then have parse: "JSON_parse (stored_text cs) = Some (VArray (map json_of_stored cs))"
    unfolding stored_text_def by (rule JSON_parse_stringify)
  have ne: "stored_text cs \<noteq> []"
    by (simp add: stored_text_def)
  have rev: "map_throwing (revive legacy) (map json_of_stored cs) = Inr (map obj cs)"
    using dates
  proof (induction cs)
    case Nil
    show ?case by simp
  next
    case (Cons j cs)
    then show ?case by (simp add: revive_json_of_stored obj_def)
  qed
  have read: "getTransactions_text legacy (Some (stored_text js)) = Inr (map obj cs)"
    using parse ne rev
    by (simp add: getTransactions_text_def stored_text_canonical [of js, symmetric] cs_def [symmetric])
  have typed: "map transaction_of (map obj cs) = map (\<lambda>j. Some (revive_txn (canonical_stored j))) js"
    by (simp add: cs_def obj_def transaction_of_revived comp_def)
  have abs: "getTransactions (Some (Records (map canonical_stored js)))
      = Inr (map (\<lambda>j. revive_txn (canonical_stored j)) js)"
    by (simp add: getTransactions_def comp_def)
  show ?thesis
    using read typed abs by blast
qed

text \<open>The text of a slot with two transactions, and what is read from it.\<close>

lemma written_text_example:
  \<open>stored_text
     [\<lparr>j_id = ''1705276800000-0'', j_date = 1705276800000, j_amount = JNum 1005 (- 1),
       j_type = Savings, j_description = Some ''Monthly deposit''\<rparr>,
      \<lparr>j_id = ''1762128000002'', j_date = 1762128000002, j_amount = JNull,
       j_type = Spend, j_description = None\<rparr>]
   = ''[{"id":"1705276800000-0","date":"2024-01-15T00:00:00.000Z","amount":100.5,"type":"savings","description":"Monthly deposit"},{"id":"1762128000002","date":"2025-11-03T00:00:00.002Z","amount":null,"type":"spend"}]''\<close>
proof -
  have two: "replicate 2 c = [c, c]" for c :: char
    by (simp add: numeral_2_eq_2)
  show ?thesis
    by (simp add: json_eval text_eval number_eval date_eval service_eval two)
qed

lemma read_text_example:
  \<open>map transaction_of (projr (getTransactions_text no_legacy_units
     (Some ''[{"id":"1705276800000-0","date":"2024-01-15T00:00:00.000Z","amount":100.5,"type":"savings","description":"Monthly deposit"},{"id":"1762128000002","date":"2025-11-03T00:00:00.002Z","amount":null,"type":"spend"}]'')))
   = [Some \<lparr>txn_id = ''1705276800000-0'', date = 1705276800000, amount = Some (Fin 1005 (- 1)),
             txn_type = Savings, description = Some ''Monthly deposit''\<rparr>,
      Some \<lparr>txn_id = ''1762128000002'', date = 1762128000002, amount = None,
             txn_type = Spend, description = None\<rparr>]\<close>
  by (simp add: json_eval text_eval number_eval date_eval service_eval)

section \<open>Merging on import\<close>


lemma insort_key_after:
  "\<forall>y\<in>set as. f y < f x \<Longrightarrow> insort_key f x (as @ bs) = as @ insort_key f x bs"
  by (induction as) auto

lemma sort_key_append_earlier:
  fixes f :: "'a \<Rightarrow> int"
  assumes "\<forall>y\<in>set ys. \<forall>x\<in>set xs. f y < f x"
  shows "sort_key f (xs @ ys) = sort_key f ys @ sort_key f xs"
  using assms
proof (induction xs)
  case Nil
  then show ?case by simp
next
  case (Cons x xs)
  then have "sort_key f (xs @ ys) = sort_key f ys @ sort_key f xs" by simp
  moreover have "\<forall>y\<in>set (sort_key f ys). f y < f x" using Cons.prems by simp
  ultimately show ?case by (simp add: insort_key_after)
qed

lemma map_fixed: "\<forall>x\<in>set xs. f x = x \<Longrightarrow> map f xs = xs"
  by (induction xs) auto

lemma revive_stringify_revive: "revive_txn (stringify_txn (revive_txn j)) = revive_txn j"
  by (cases "j_amount j") (simp_all add: revive_txn_def stringify_txn_def json_of_amount_def amount_of_json_def)

lemma as_stored_date: "date (as_stored t) = date t"
  by (simp add: as_stored_def revive_txn_def stringify_txn_def)

lemma as_stored_id: "txn_id (as_stored t) = txn_id t"
  by (simp add: as_stored_def revive_txn_def stringify_txn_def)

lemma getTransactions_Records:
  "getTransactions (Some (Records (map stringify_txn ts))) = Inr (map as_stored ts)"
  by (simp add: getTransactions_def as_stored_def)

lemma getTransactions_as_stored:
  assumes "getTransactions st = Inr existing"
  shows "map as_stored existing = existing"
proof (cases st)
  case None
  with assms show ?thesis by (simp add: getTransactions_def)
next
  case (Some p)
  with assms show ?thesis
    by (cases p) (auto simp: getTransactions_def as_stored_def revive_stringify_revive)
qed

lemma successful_import:
  assumes "success (fst (importFromCSV legacy csvContent st))"
  shows "\<exists>existing. getTransactions st = Inr existing
           \<and> new_rows legacy csvContent existing \<noteq> []
           \<and> importFromCSV legacy csvContent st
               = (imported_result (length (new_rows legacy csvContent existing)),
                  Some (Records (map stringify_txn (merged existing (new_rows legacy csvContent existing)))))"
proof (cases "getTransactions st")
  case (Inl err)
  with assms show ?thesis
    by (auto simp: importFromCSV_def import_lines_def too_short_result_def caught_result_def
        split: if_splits)
next
  case (Inr existing)
  with assms show ?thesis
    by (auto simp: importFromCSV_def import_lines_def finish_import_def too_short_result_def
        no_rows_result_def new_rows_def split: if_splits)
qed


text \<open>
  C8. When an import succeeds, the rows it accepts are appended to the list that was
  stored, the whole is sorted by date and written, and that is what the next
  \<open>getTransactions\<close> returns, in ascending order of date; the count that is reported
  is the number of accepted rows, which is positive, and the stored list is longer than
  before by that number. When every new row is dated before every stored transaction,
  the new rows come first in the list that is read back.
\<close>

theorem import_merges_and_sorts:
  assumes "success (fst (importFromCSV legacy csvContent st))"
  shows "\<exists>existing new listed.
           getTransactions st = Inr existing
         \<and> new = new_rows legacy csvContent existing
         \<and> getTransactions (snd (importFromCSV legacy csvContent st)) = Inr listed
         \<and> listed = map as_stored (sort_key date (existing @ new))
         \<and> sorted (map date listed)
         \<and> count (fst (importFromCSV legacy csvContent st)) = length new
         \<and> 0 < length new
         \<and> length listed = length existing + length new
         \<and> ((\<forall>n\<in>set new. \<forall>e\<in>set existing. date n < date e)
              \<longrightarrow> listed = map as_stored (sort_key date new) @ sort_key date existing)"
proof -
  from successful_import [OF assms] obtain existing where
    ex: "getTransactions st = Inr existing"
    and ne: "new_rows legacy csvContent existing \<noteq> []"
    and res: "importFromCSV legacy csvContent st
               = (imported_result (length (new_rows legacy csvContent existing)),
                  Some (Records (map stringify_txn (merged existing (new_rows legacy csvContent existing)))))"
    by blast
  define new where "new = new_rows legacy csvContent existing"
  define listed where "listed = map as_stored (sort_key date (existing @ new))"
  have read: "getTransactions (snd (importFromCSV legacy csvContent st)) = Inr listed"
    by (simp add: res getTransactions_Records merged_def listed_def new_def)
  have "map date listed = map date (sort_key date (existing @ new))"
    by (simp add: listed_def as_stored_date comp_def)
  then have srt: "sorted (map date listed)" by simp
  have cnt: "count (fst (importFromCSV legacy csvContent st)) = length new"
    by (simp add: res imported_result_def new_def)
  have first: "listed = map as_stored (sort_key date new) @ sort_key date existing"
    if "\<forall>n\<in>set new. \<forall>e\<in>set existing. date n < date e"
  proof -
    have "sort_key date (existing @ new) = sort_key date new @ sort_key date existing"
      using that by (rule sort_key_append_earlier)
    moreover have "map as_stored (sort_key date existing) = sort_key date existing"
    proof -
      have "\<forall>t\<in>set existing. as_stored t = t"
        using getTransactions_as_stored [OF ex] map_eq_conv [of as_stored existing "\<lambda>x. x"] by simp
      then have "\<forall>t\<in>set (sort_key date existing). as_stored t = t" by simp
      then show ?thesis by (rule map_fixed)
    qed
    ultimately show ?thesis by (simp add: listed_def)
  qed
  have len: "length listed = length existing + length new"
    by (simp add: listed_def)
  have pos: "0 < length new" using ne by (simp add: new_def)
  show ?thesis
    apply (rule exI [of _ existing], rule exI [of _ new], rule exI [of _ listed])
    using ex read srt cnt pos len first by (simp add: new_def listed_def)
qed

theorem import_merges_and_sorts_witness:
  "success (fst (importFromCSV no_legacy_formats
       (''Date,Amount,Type,Description'' @ [newline] @ ''2024-01-15,100.50,savings,Monthly deposit'')
       (Some (Records [\<lparr>j_id = ''1706745600000'', j_date = 1706745600000, j_amount = JNum 5 0,
                         j_type = Spend, j_description = None\<rparr>]))))
   \<and> count (fst (importFromCSV no_legacy_formats
       (''Date,Amount,Type,Description'' @ [newline] @ ''2024-01-15,100.50,savings,Monthly deposit'')
       (Some (Records [\<lparr>j_id = ''1706745600000'', j_date = 1706745600000, j_amount = JNum 5 0,
                         j_type = Spend, j_description = None\<rparr>])))) = 1
   \<and> getTransactions (snd (importFromCSV no_legacy_formats
       (''Date,Amount,Type,Description'' @ [newline] @ ''2024-01-15,100.50,savings,Monthly deposit'')
       (Some (Records [\<lparr>j_id = ''1706745600000'', j_date = 1706745600000, j_amount = JNum 5 0,
                         j_type = Spend, j_description = None\<rparr>]))))
     = Inr [\<lparr>txn_id = ''1705276800000-0'', date = 1705276800000, amount = Some (Fin 1005 (- 1)),
              txn_type = Savings, description = Some ''Monthly deposit''\<rparr>,
            \<lparr>txn_id = ''1706745600000'', date = 1706745600000, amount = Some (Fin 5 0),
              txn_type = Spend, description = None\<rparr>]"
proof -
  define csv where "csv = ''Date,Amount,Type,Description'' @ [newline] @ ''2024-01-15,100.50,savings,Monthly deposit''"
  define st0 where "st0 = Some (Records [\<lparr>j_id = ''1706745600000'', j_date = 1706745600000,
    j_amount = JNum 5 0, j_type = Spend, j_description = None\<rparr>])"
  have ok: "success (fst (importFromCSV no_legacy_formats csv st0))"
    by (simp add: csv_def st0_def text_eval number_eval date_eval service_eval)
  from import_merges_and_sorts [OF ok] obtain existing new listed where
    ex: "getTransactions st0 = Inr existing"
    and new: "new = new_rows no_legacy_formats csv existing"
    and read: "getTransactions (snd (importFromCSV no_legacy_formats csv st0)) = Inr listed"
    and listed: "listed = map as_stored (sort_key date (existing @ new))"
    and cnt: "count (fst (importFromCSV no_legacy_formats csv st0)) = length new"
    by blast
  have existing: "existing = [\<lparr>txn_id = ''1706745600000'', date = 1706745600000,
      amount = Some (Fin 5 0), txn_type = Spend, description = None\<rparr>]"
    using ex by (simp add: st0_def service_eval)
  have new': "new = [\<lparr>txn_id = ''1705276800000-0'', date = 1705276800000,
      amount = Some (Fin 1005 (- 1)), txn_type = Savings, description = Some ''Monthly deposit''\<rparr>]"
    unfolding new existing
    by (simp add: csv_def text_eval number_eval date_eval service_eval)
  have "listed = [\<lparr>txn_id = ''1705276800000-0'', date = 1705276800000, amount = Some (Fin 1005 (- 1)),
              txn_type = Savings, description = Some ''Monthly deposit''\<rparr>,
            \<lparr>txn_id = ''1706745600000'', date = 1706745600000, amount = Some (Fin 5 0),
              txn_type = Spend, description = None\<rparr>]"
    unfolding listed existing new' by (simp add: service_eval)
  with ok read cnt new' show ?thesis
    unfolding csv_def st0_def by simp
qed

section \<open>Ids\<close>








lemma stored_ids_Records:
  "stored_ids (Some (Records (map stringify_txn ts))) = map txn_id ts"
  by (simp add: stored_ids_def getTransactions_Records as_stored_id comp_def)






section \<open>Importing the same text twice\<close>

lemma show_nat_inject: "show_nat i = show_nat j \<Longrightarrow> i = j"
  by (metis nat_of_digits_show_nat)

lemma show_nat_no_hyphen: "CHR ''-'' \<notin> set (show_nat i)"
  using show_nat_all_digits [of i] by (auto simp: list_all_iff dest: is_digit_not_symbol)

text \<open>The text after the last hyphen of an id.\<close>

lemma after_last_hyphen:
  assumes "CHR ''-'' \<notin> set u"
  shows "rev (takeWhile (\<lambda>c. c \<noteq> CHR ''-'') (rev (p @ ''-'' @ u))) = u"
proof -
  have "takeWhile (\<lambda>c. c \<noteq> CHR ''-'') (rev u @ CHR ''-'' # rev p) = rev u"
    using assms by (subst takeWhile_append2) auto
  then show ?thesis by simp
qed

lemma import_row_id:
  assumes "import_row legacy i data_line = Some t"
  shows "\<exists>tv. txn_id t = show_int tv @ ''-'' @ show_nat i"
  using assms
  by (auto simp: import_row_def row_of_columns_def make_row_def split: if_splits jsdate.splits)

lemma import_row_index:
  assumes "import_row legacy i data_line = Some t"
  shows "rev (takeWhile (\<lambda>c. c \<noteq> CHR ''-'') (rev (txn_id t))) = show_nat i"
proof -
  from import_row_id [OF assms] obtain tv where "txn_id t = show_int tv @ ''-'' @ show_nat i" ..
  then show ?thesis using after_last_hyphen [OF show_nat_no_hyphen, of "show_int tv" i] by simp
qed

lemma valid_rows_index:
  "t \<in> set (valid_rows legacy ls i) \<Longrightarrow>
     \<exists>j\<ge>i. rev (takeWhile (\<lambda>c. c \<noteq> CHR ''-'') (rev (txn_id t))) = show_nat j"
proof (induction ls arbitrary: i)
  case Nil
  then show ?case by simp
next
  case (Cons l ls)
  show ?case
  proof (cases "import_row legacy i l")
    case None
    with Cons.prems have "t \<in> set (valid_rows legacy ls (Suc i))" by simp
    from Cons.IH [OF this] show ?thesis by (meson Suc_leD)
  next
    case (Some r)
    with Cons.prems consider "t = r" | "t \<in> set (valid_rows legacy ls (Suc i))" by auto
    then show ?thesis
    proof cases
      case 1
      with import_row_index [OF Some] show ?thesis by blast
    next
      case 2
      from Cons.IH [OF this] show ?thesis by (meson Suc_leD)
    qed
  qed
qed

lemma valid_rows_later_id:
  assumes "import_row legacy i l = Some r" and "t \<in> set (valid_rows legacy ls (Suc i))"
  shows "txn_id t \<noteq> txn_id r"
proof
  assume eq: "txn_id t = txn_id r"
  from valid_rows_index [OF assms(2)] obtain j where
    j: "Suc i \<le> j" "rev (takeWhile (\<lambda>c. c \<noteq> CHR ''-'') (rev (txn_id t))) = show_nat j" by blast
  from import_row_index [OF assms(1)] eq j(2) have "show_nat j = show_nat i" by simp
  then have "j = i" by (rule show_nat_inject)
  with j(1) show False by simp
qed

lemma import_loop_fresh:
  assumes "\<forall>t\<in>set (valid_rows legacy ls i). txn_id t \<notin> S"
  shows "import_loop legacy ls i acc S = acc @ valid_rows legacy ls i"
  using assms
proof (induction ls arbitrary: i acc S)
  case Nil
  then show ?case by simp
next
  case (Cons l ls)
  show ?case
  proof (cases "import_row legacy i l")
    case None
    with Cons show ?thesis by simp
  next
    case (Some r)
    have fresh: "txn_id r \<notin> S" using Cons.prems Some by simp
    have "\<forall>t\<in>set (valid_rows legacy ls (Suc i)). txn_id t \<notin> insert (txn_id r) S"
      using Cons.prems Some valid_rows_later_id [OF Some] by auto
    from Cons.IH [OF this] fresh Some show ?thesis by simp
  qed
qed

lemma import_loop_known:
  assumes "\<forall>t\<in>set (valid_rows legacy ls i). txn_id t \<in> S"
  shows "import_loop legacy ls i acc S = acc"
  using assms
proof (induction ls arbitrary: i)
  case Nil
  then show ?case by simp
next
  case (Cons l ls)
  then show ?case by (cases "import_row legacy i l") auto
qed


lemma import_twice_accepted:
  assumes "getTransactions st = Inr existing"
    and "valid_rows legacy (tl (non_blank_lines csvContent)) 0 \<noteq> []"
    and "\<forall>t\<in>set (valid_rows legacy (tl (non_blank_lines csvContent)) 0). txn_id t \<notin> set (stored_ids st)"
  shows "importFromCSV legacy csvContent st
           = (imported_result (length (valid_rows legacy (tl (non_blank_lines csvContent)) 0)),
              Some (Records (map stringify_txn
                (merged existing (valid_rows legacy (tl (non_blank_lines csvContent)) 0)))))"
    and "importFromCSV legacy csvContent (snd (importFromCSV legacy csvContent st))
           = (no_rows_result, snd (importFromCSV legacy csvContent st))"
proof -
  define dataLines where "dataLines = tl (non_blank_lines csvContent)"
  define rows where "rows = valid_rows legacy dataLines 0"
  have long: "\<not> length (non_blank_lines csvContent) < 2"
  proof
    assume "length (non_blank_lines csvContent) < 2"
    then have "tl (non_blank_lines csvContent) = []"
      by (cases "non_blank_lines csvContent") auto
    with assms(2) show False by simp
  qed
  have ids: "set (stored_ids st) = set (map txn_id existing)"
    using assms(1) by (simp add: stored_ids_def)
  have "import_loop legacy dataLines 0 [] (set (map txn_id existing)) = [] @ rows"
    unfolding rows_def
    by (rule import_loop_fresh) (use assms(3) ids in \<open>simp add: dataLines_def\<close>)
  then have new: "import_loop legacy dataLines 0 [] (set (map txn_id existing)) = rows" by simp
  have ne: "rows \<noteq> []" using assms(2) by (simp add: rows_def dataLines_def)
  define st1 where "st1 = Some (Records (map stringify_txn (merged existing rows)))"
  have first: "importFromCSV legacy csvContent st = (imported_result (length rows), st1)"
    using long assms(1) new ne
    by (simp add: importFromCSV_def import_lines_def finish_import_def dataLines_def [symmetric] st1_def)
  have read1: "getTransactions st1 = Inr (map as_stored (merged existing rows))"
    by (simp add: st1_def getTransactions_Records)
  have "\<forall>t\<in>set rows. txn_id t \<in> set (map txn_id (map as_stored (merged existing rows)))"
    by (auto simp: merged_def as_stored_id comp_def)
  then have "import_loop legacy dataLines 0 []
               (set (map txn_id (map as_stored (merged existing rows)))) = []"
    unfolding rows_def by (rule import_loop_known)
  then have second: "importFromCSV legacy csvContent st1 = (no_rows_result, st1)"
    using long read1
    by (simp add: importFromCSV_def import_lines_def finish_import_def dataLines_def [symmetric])
  show "importFromCSV legacy csvContent st
           = (imported_result (length (valid_rows legacy (tl (non_blank_lines csvContent)) 0)),
              Some (Records (map stringify_txn
                (merged existing (valid_rows legacy (tl (non_blank_lines csvContent)) 0)))))"
    using first by (simp add: rows_def dataLines_def st1_def)
  show "importFromCSV legacy csvContent (snd (importFromCSV legacy csvContent st))
           = (no_rows_result, snd (importFromCSV legacy csvContent st))"
    using first second by simp
qed

text \<open>
  The rows that the loop accepts and the rows that the specification calls valid: they
  are the same rows, with the ids of the specification, in a text none of whose rows has
  an amount that parses to an infinity.
\<close>

lemma is_ws_lower_char: "is_ws (lower_char c) = is_ws c"
proof (cases "is_upper c")
  case False
  then show ?thesis by (simp add: lower_char_def)
next
  case True
  define n where "n = (of_char c :: nat)"
  from True have up: "(65 \<le> n \<and> n \<le> 90) \<or> (192 \<le> n \<and> n \<le> 222)"
    by (auto simp: is_upper_def n_def)
  have low: "of_char (lower_char c) = n + 32"
    using True up by (auto simp: lower_char_def n_def [symmetric])
  have ws: "is_ws d \<longleftrightarrow> of_char d \<in> {9, 10, 11, 12, 13, 32, 160 :: nat}" for d
    by (cases d) (simp add: is_ws_def)
  show ?thesis
    unfolding ws low n_def [symmetric] using up by auto
qed

lemma toLowerCase_trim: "toLowerCase (trim s) = trim (toLowerCase s)"
proof -
  have drop: "map lower_char (dropWhile is_ws xs) = dropWhile is_ws (map lower_char xs)" for xs
    by (simp add: dropWhile_map comp_def is_ws_lower_char)
  have "map lower_char (rev (dropWhile is_ws (rev (dropWhile is_ws s))))
      = rev (map lower_char (dropWhile is_ws (rev (dropWhile is_ws s))))"
    by (simp only: rev_map)
  also have "\<dots> = rev (dropWhile is_ws (map lower_char (rev (dropWhile is_ws s))))"
    by (simp only: drop)
  also have "\<dots> = rev (dropWhile is_ws (rev (map lower_char (dropWhile is_ws s))))"
    by (simp only: rev_map)
  also have "\<dots> = rev (dropWhile is_ws (rev (dropWhile is_ws (map lower_char s))))"
    by (simp only: drop)
  finally show ?thesis
    by (simp only: toLowerCase_def trim_def)
qed

lemma import_row_valid:
  assumes "\<not> infinite_amount_row data_line"
  shows "spec_valid_row legacy data_line
           \<longleftrightarrow> (\<exists>t. import_row legacy i data_line = Some t)"
    and "import_row legacy i data_line = Some t \<Longrightarrow> txn_id t = spec_row_id legacy i data_line"
proof -
  have fin: "is_finite x \<longleftrightarrow> \<not> isNaN x \<and> x \<noteq> PosInf \<and> x \<noteq> NegInf" for x
    by (cases x) (simp_all add: is_finite_def isNaN_def)
  have blank: "trim data_line = [] \<Longrightarrow> \<not> 3 \<le> length (parseCSVLine (trim data_line))"
    by (simp add: parseCSVLine_def)
  show "spec_valid_row legacy data_line \<longleftrightarrow> (\<exists>t. import_row legacy i data_line = Some t)"
    using assms blank
    by (auto simp: spec_valid_row_def infinite_amount_row_def import_row_def row_of_columns_def
        make_row_def fin toLowerCase_trim split: jsdate.splits)
  show "import_row legacy i data_line = Some t \<Longrightarrow> txn_id t = spec_row_id legacy i data_line"
    by (auto simp: spec_row_id_def import_row_def row_of_columns_def make_row_def
        split: jsdate.splits if_splits)
qed

lemma valid_rows_spec:
  assumes "\<forall>l\<in>set ls. \<not> infinite_amount_row l"
  shows "map txn_id (valid_rows legacy ls i) = spec_ids legacy ls i
       \<and> length (valid_rows legacy ls i) = length (filter (spec_valid_row legacy) ls)"
  using assms
proof (induction ls arbitrary: i)
  case Nil
  show ?case by simp
next
  case (Cons l ls)
  have fin: "\<not> infinite_amount_row l" and rest: "\<forall>l\<in>set ls. \<not> infinite_amount_row l"
    using Cons.prems by simp_all
  show ?case
  proof (cases "import_row legacy i l")
    case None
    with import_row_valid(1) [OF fin, of legacy i] have "\<not> spec_valid_row legacy l" by simp
    with None Cons.IH [OF rest, of "Suc i"] show ?thesis by simp
  next
    case (Some t)
    with import_row_valid [OF fin, of legacy i] have "spec_valid_row legacy l"
      and "txn_id t = spec_row_id legacy i l" by simp_all
    with Some Cons.IH [OF rest, of "Suc i"] show ?thesis by simp
  qed
qed

text \<open>
  C5 as stated fails when the store already holds the id of a valid row: the first
  import then reports fewer rows than the text has valid ones. Here the store is what
  an import of another text has left, whose one row has the date of the first row of the
  text that is then imported; that text has two valid rows and the import reports one.
\<close>

theorem first_import_reports_fewer:
  "spec_valid_count no_legacy_formats
       (''Date,Amount,Type,Description'' @ [newline] @ ''2024-01-15,100.50,savings,Monthly deposit''
          @ [newline] @ ''2024-01-20,25.00,spend'') = 2
   \<and> snd (importFromCSV no_legacy_formats
       (''Date,Amount,Type,Description'' @ [newline] @ ''2024-01-15,7,spend,Bus'') None)
     = Some (Records [\<lparr>j_id = ''1705276800000-0'', j_date = 1705276800000, j_amount = JNum 7 0,
                        j_type = Spend, j_description = Some ''Bus''\<rparr>])
   \<and> fst (importFromCSV no_legacy_formats
       (''Date,Amount,Type,Description'' @ [newline] @ ''2024-01-15,100.50,savings,Monthly deposit''
          @ [newline] @ ''2024-01-20,25.00,spend'')
       (Some (Records [\<lparr>j_id = ''1705276800000-0'', j_date = 1705276800000, j_amount = JNum 7 0,
                         j_type = Spend, j_description = Some ''Bus''\<rparr>])))
     = imported_result 1"
  by (simp add: spec_valid_count_def spec_valid_row_def is_finite_def
      text_eval number_eval date_eval service_eval)

text \<open>
  C5 as amended. Take a text with \<open>N\<close> valid data rows in the sense of the
  specification, \<open>N\<close> at least one, none of whose data rows has an amount that parses
  to an infinity, and a store that can be read and holds none of the ids
  \<open><epoch milliseconds>-<row index>\<close> of the valid rows. The first import reports success
  with the count \<open>N\<close> and stores those ids. The second import of the same text, into the
  store the first one left, reports the failure for no valid rows with the count 0 and
  leaves the store as it is.
\<close>

theorem import_twice:
  assumes "getTransactions st = Inr existing"
    and "0 < spec_valid_count legacy csvContent"
    and "\<forall>l\<in>set (tl (non_blank_lines csvContent)). \<not> infinite_amount_row l"
    and "\<forall>i\<in>set (spec_ids legacy (tl (non_blank_lines csvContent)) 0). i \<notin> set (stored_ids st)"
  shows "fst (importFromCSV legacy csvContent st) = imported_result (spec_valid_count legacy csvContent)
       \<and> success (fst (importFromCSV legacy csvContent st))
       \<and> count (fst (importFromCSV legacy csvContent st)) = spec_valid_count legacy csvContent
       \<and> set (spec_ids legacy (tl (non_blank_lines csvContent)) 0)
           \<subseteq> set (stored_ids (snd (importFromCSV legacy csvContent st)))
       \<and> importFromCSV legacy csvContent (snd (importFromCSV legacy csvContent st))
           = (no_rows_result, snd (importFromCSV legacy csvContent st))
       \<and> \<not> success no_rows_result \<and> count no_rows_result = 0"
proof -
  define rows where "rows = valid_rows legacy (tl (non_blank_lines csvContent)) 0"
  have ids: "map txn_id rows = spec_ids legacy (tl (non_blank_lines csvContent)) 0"
    and len: "length rows = spec_valid_count legacy csvContent"
    using valid_rows_spec [OF assms(3), of legacy 0] by (simp_all add: rows_def spec_valid_count_def)
  have ne: "rows \<noteq> []" using assms(2) len by auto
  have fresh: "\<forall>t\<in>set rows. txn_id t \<notin> set (stored_ids st)"
  proof
    fix t assume "t \<in> set rows"
    then have "txn_id t \<in> set (map txn_id rows)" by simp
    with assms(4) show "txn_id t \<notin> set (stored_ids st)" by (simp only: ids) blast
  qed
  note twice = import_twice_accepted [OF assms(1) ne [unfolded rows_def] fresh [unfolded rows_def]]
  have first: "importFromCSV legacy csvContent st
      = (imported_result (length rows), Some (Records (map stringify_txn (merged existing rows))))"
    using twice(1) by (simp add: rows_def)
  have "stored_ids (snd (importFromCSV legacy csvContent st)) = map txn_id (merged existing rows)"
    by (simp only: first snd_conv stored_ids_Records)
  then have kept: "set (map txn_id rows) \<subseteq> set (stored_ids (snd (importFromCSV legacy csvContent st)))"
    by (auto simp: merged_def)
  show ?thesis
    using first twice(2) kept
    by (simp add: len ids imported_result_def no_rows_result_def)
qed

theorem import_twice_witness:
  "getTransactions None = Inr []
   \<and> spec_valid_count no_legacy_formats
        (''Date,Amount,Type,Description'' @ [newline] @ ''2024-01-15,100.50,savings,Monthly deposit''
           @ [newline] @ ''2024-01-16,abc,savings''
           @ [newline] @ ''2024-01-20,25.00,spend'') = 2
   \<and> spec_ids no_legacy_formats (tl (non_blank_lines
        (''Date,Amount,Type,Description'' @ [newline] @ ''2024-01-15,100.50,savings,Monthly deposit''
           @ [newline] @ ''2024-01-16,abc,savings''
           @ [newline] @ ''2024-01-20,25.00,spend''))) 0 = [''1705276800000-0'', ''1705708800000-2'']
   \<and> fst (importFromCSV no_legacy_formats
        (''Date,Amount,Type,Description'' @ [newline] @ ''2024-01-15,100.50,savings,Monthly deposit''
           @ [newline] @ ''2024-01-16,abc,savings''
           @ [newline] @ ''2024-01-20,25.00,spend'') None) = imported_result 2
   \<and> importFromCSV no_legacy_formats
        (''Date,Amount,Type,Description'' @ [newline] @ ''2024-01-15,100.50,savings,Monthly deposit''
           @ [newline] @ ''2024-01-16,abc,savings''
           @ [newline] @ ''2024-01-20,25.00,spend'')
        (snd (importFromCSV no_legacy_formats
          (''Date,Amount,Type,Description'' @ [newline] @ ''2024-01-15,100.50,savings,Monthly deposit''
             @ [newline] @ ''2024-01-16,abc,savings''
             @ [newline] @ ''2024-01-20,25.00,spend'') None))
      = (no_rows_result,
         snd (importFromCSV no_legacy_formats
          (''Date,Amount,Type,Description'' @ [newline] @ ''2024-01-15,100.50,savings,Monthly deposit''
             @ [newline] @ ''2024-01-16,abc,savings''
             @ [newline] @ ''2024-01-20,25.00,spend'') None))"
proof -
  define csv where "csv = ''Date,Amount,Type,Description'' @ [newline]
    @ ''2024-01-15,100.50,savings,Monthly deposit'' @ [newline] @ ''2024-01-16,abc,savings''
    @ [newline] @ ''2024-01-20,25.00,spend''"
  have lines: "tl (non_blank_lines csv)
      = [''2024-01-15,100.50,savings,Monthly deposit'', ''2024-01-16,abc,savings'', ''2024-01-20,25.00,spend'']"
    by (simp add: csv_def text_eval service_eval)
  have r: "getTransactions None = Inr []"
    by (simp add: getTransactions_def)
  have n: "spec_valid_count no_legacy_formats csv = 2"
    unfolding spec_valid_count_def lines
    by (simp add: spec_valid_row_def is_finite_def text_eval number_eval date_eval service_eval)
  have pos: "0 < spec_valid_count no_legacy_formats csv"
    by (simp add: n)
  have fin: "\<forall>l\<in>set (tl (non_blank_lines csv)). \<not> infinite_amount_row l"
    unfolding lines
    by (simp add: infinite_amount_row_def text_eval number_eval service_eval)
  have ids: "spec_ids no_legacy_formats (tl (non_blank_lines csv)) 0
      = [''1705276800000-0'', ''1705708800000-2'']"
    unfolding lines
    by (simp add: spec_valid_row_def spec_row_id_def is_finite_def
        text_eval number_eval date_eval service_eval)
  have fresh: "\<forall>i\<in>set (spec_ids no_legacy_formats (tl (non_blank_lines csv)) 0).
      i \<notin> set (stored_ids None)"
    by (simp add: stored_ids_def getTransactions_def)
  from import_twice [OF r pos fin fresh] r n ids show ?thesis
    unfolding csv_def [symmetric] by simp
qed

section \<open>The round trip through the CSV text\<close>

text \<open>
  C6 as stated fails for the empty list: its export is the header alone, and the import
  rejects a text with fewer than two lines (line 72), so the round trip does not succeed.
\<close>

theorem export_of_empty_list_is_rejected:
  "exportToCSV None = Inr ''Date,Amount,Type,Description''
   \<and> importFromCSV no_legacy_formats ''Date,Amount,Type,Description'' None = (too_short_result, None)
   \<and> \<not> success too_short_result"
  by (simp add: text_eval service_eval)


lemma plain_textI: "(\<And>c. c \<in> set s \<Longrightarrow> c \<noteq> comma \<and> c \<noteq> dquote \<and> \<not> is_ws c) \<Longrightarrow> plain_text s"
  by (simp add: plain_text_def list_all_iff)

lemma plain_text_append: "plain_text (a @ b) = (plain_text a \<and> plain_text b)"
  by (simp add: plain_text_def)

lemma plain_text_Cons: "plain_text (c # s) = ((c \<noteq> comma \<and> c \<noteq> dquote \<and> \<not> is_ws c) \<and> plain_text s)"
  by (simp add: plain_text_def)

lemma plain_text_Nil: "plain_text []"
  by (simp add: plain_text_def)

lemma plain_digits: "list_all is_digit s \<Longrightarrow> plain_text s"
  by (auto simp: plain_text_def list_all_iff is_digit_def comma_def dquote_def is_ws_def)

lemma plain_take_drop: "plain_text s \<Longrightarrow> plain_text (take n s) \<and> plain_text (drop n s)"
  by (auto simp: plain_text_def list_all_iff dest: in_set_takeD in_set_dropD)

lemmas plain_simps = plain_text_append plain_text_Cons plain_text_Nil

lemma plain_symbols:
  "plain_text ''-''" "plain_text ''+''" "plain_text ''.''" "plain_text ''e''" "plain_text ''0''"
  "plain_text ''NaN''" "plain_text ''Infinity''" "plain_text ''savings''" "plain_text ''spend''"
  by (simp_all add: plain_text_def comma_def dquote_def is_ws_def)

lemma plain_year_text: "- 999999 \<le> y \<Longrightarrow> y \<le> 999999 \<Longrightarrow> plain_text (year_text y)"
proof -
  assume a: "- 999999 \<le> y" "y \<le> 999999"
  have "plain_text (pad_start 6 (show_nat (nat \<bar>y\<bar>)))"
    by (rule plain_digits, rule pad_start_props) (use a in simp_all)
  moreover have "0 \<le> y \<and> y \<le> 9999 \<Longrightarrow> plain_text (pad_start 4 (show_nat (nat y)))"
    by (rule plain_digits, rule pad_start_props(2) [of _ 4]) (simp_all add: nat_less_iff)
  ultimately show ?thesis
    by (auto simp: year_text_def plain_simps comma_def dquote_def is_ws_def)
qed

lemma plain_iso_date_text:
  assumes "\<bar>t\<bar> \<le> maxTime"
  shows "plain_text (iso_date_text t)"
proof -
  note df = date_fields_of_time [OF assms]
  have "plain_text (two_digits (int (MonthFromTime t) + 1))"
    by (rule plain_digits, rule two_digits_props) (use df in simp_all)
  moreover have "plain_text (two_digits (DateFromTime t))"
    by (rule plain_digits, rule two_digits_props) (use df in simp_all)
  moreover have "plain_text (year_text (YearFromTime t))"
    using YearFromTime_range [OF assms] by (rule plain_year_text)
  ultimately show ?thesis
    by (simp add: iso_date_text_def plain_simps comma_def dquote_def is_ws_def)
qed

lemma plain_exponent_text: "plain_text (exponent_text ex)"
  using plain_digits [OF show_nat_all_digits, of "nat \<bar>ex\<bar>"]
  by (simp add: exponent_text_def plain_simps comma_def dquote_def is_ws_def del: abs_if)

lemma plain_digits_toString:
  assumes "list_all is_digit ds"
  shows "plain_text (digits_toString ds n)"
proof -
  have ds: "plain_text ds" using assms by (rule plain_digits)
  have z: "plain_text (zeros j)" for j by (rule plain_digits) (rule zeros_all_digits)
  show ?thesis
    using ds z plain_take_drop [OF ds] plain_exponent_text
    by (simp add: digits_toString_def plain_simps comma_def dquote_def is_ws_def)
qed

lemma plain_numToString: "plain_text (numToString x)"
proof (cases x)
  case (Fin m e)
  have "plain_text (decimal_toString se)" for se
    unfolding decimal_toString_def by (rule plain_digits_toString) (rule show_nat_all_digits)
  then show ?thesis
    using Fin plain_symbols by (simp add: numToString_def plain_simps comma_def dquote_def is_ws_def)
qed (simp_all add: numToString_def plain_symbols plain_simps comma_def dquote_def is_ws_def)

lemma plain_type_text: "plain_text (type_text ty)"
  by (cases ty) (simp_all add: type_text_def plain_symbols)

lemma plain_text_facts:
  assumes "plain_text s"
  shows "comma \<notin> set s" and "dquote \<notin> set s" and "newline \<notin> set s" and "trim s = s"
    and "escape_cell s = s"
proof -
  have all: "\<And>c. c \<in> set s \<Longrightarrow> c \<noteq> comma \<and> c \<noteq> dquote \<and> \<not> is_ws c"
    using assms by (simp add: plain_text_def list_all_iff)
  show c: "comma \<notin> set s" and d: "dquote \<notin> set s" using all by blast+
  have "is_ws newline" by (simp add: is_ws_def newline_def)
  then show n: "newline \<notin> set s" using all by blast
  have "dropWhile is_ws s = s" using all by (cases s) auto
  moreover have "dropWhile is_ws (rev s) = rev s" using all by (cases "rev s") (auto simp: Cons_eq_append_conv dest!: arg_cong [where f = set])
  ultimately show "trim s = s" by (simp add: trim_def)
  show "escape_cell s = s" using c d n by (simp add: escape_cell_def str_includes_def)
qed

lemma dquote_not_comma: "comma \<noteq> dquote"
  by (simp add: comma_def dquote_def)

lemma parseCSVLine_loop_cell:
  assumes "comma \<notin> set cell" and "dquote \<notin> set cell"
  shows "parseCSVLine_loop (cell @ comma # rest) result current False
           = parseCSVLine_loop rest (result @ [trim (current @ cell)]) [] False"
    and "parseCSVLine_loop cell result current False = result @ [trim (current @ cell)]"
  using assms by (induction cell arbitrary: current) (auto simp: dquote_not_comma)

lemma parseCSVLine_four_cells:
  assumes "plain_text a" and "plain_text b" and "plain_text c"
    and "comma \<notin> set d" and "dquote \<notin> set d"
  shows "parseCSVLine (a @ comma # b @ comma # c @ comma # d) = [a, b, c, trim d]"
proof -
  note pa = plain_text_facts [OF assms(1)]
  note pb = plain_text_facts [OF assms(2)]
  note pc = plain_text_facts [OF assms(3)]
  show ?thesis
    unfolding parseCSVLine_def
    by (simp add: parseCSVLine_loop_cell(1) [OF pa(1,2)] parseCSVLine_loop_cell(1) [OF pb(1,2)]
        parseCSVLine_loop_cell(1) [OF pc(1,2)] parseCSVLine_loop_cell(2) [OF assms(4,5)]
        pa(4) pb(4) pc(4))
qed

lemma not_ws_comma: "\<not> is_ws comma"
  by (simp add: is_ws_def comma_def)

text \<open>Trimming an exported line only touches the end of its last cell.\<close>

lemma trim_line:
  assumes "a \<noteq> []" and "\<not> is_ws (hd a)"
  shows "trim (a @ comma # d) = a @ comma # rev (dropWhile is_ws (rev d))"
proof -
  obtain x xs where a: "a = x # xs" using assms(1) by (cases a) auto
  have front: "dropWhile is_ws (a @ comma # d) = a @ comma # d"
    using assms(2) by (simp add: a)
  have tail_end: "dropWhile is_ws (rev d @ comma # rev a) = dropWhile is_ws (rev d) @ comma # rev a"
  proof (cases "\<forall>c\<in>set (rev d). is_ws c")
    case True
    then have "dropWhile is_ws (rev d) = []" by simp
    moreover have "dropWhile is_ws (rev d @ comma # rev a) = dropWhile is_ws (comma # rev a)"
      using True by (subst dropWhile_append2) auto
    ultimately show ?thesis by (simp add: not_ws_comma)
  next
    case False
    then obtain c where "c \<in> set (rev d)" "\<not> is_ws c" by blast
    then show ?thesis by (rule dropWhile_append1)
  qed
  show ?thesis by (simp add: trim_def front tail_end)
qed

lemma cut_end_facts:
  assumes "comma \<notin> set d" and "dquote \<notin> set d"
  shows "comma \<notin> set (rev (dropWhile is_ws (rev d)))" and "dquote \<notin> set (rev (dropWhile is_ws (rev d)))"
  using assms by (auto dest: set_dropWhileD)

lemma type_of_type_text:
  "trim (toLowerCase (type_text ty)) = type_text ty"
  "type_text ty = ''savings'' \<longleftrightarrow> ty = Savings"
  "type_text ty \<noteq> ''savings'' \<Longrightarrow> type_text ty = ''spend''"
  by (cases ty; simp add: type_text_def text_eval)+

text \<open>
  The line that the export writes for a transaction is read back by the loop body as a
  transaction with the same amount and type, dated at the start of the day.
\<close>

lemma import_row_of_exported:
  assumes "\<bar>tv\<bar> \<le> maxTime" and "in_double_range (Fin m e)"
    and "comma \<notin> set d" and "dquote \<notin> set d" and "newline \<notin> set d"
  shows "\<exists>memo. import_row legacy i (csv_line [iso_date_text tv, numToString (Fin m e), type_text ty, d])
           = Some \<lparr>txn_id = show_int (day_start tv) @ ''-'' @ show_nat i, date = day_start tv,
                    amount = Some (canonical (Fin m e)), txn_type = ty, description = memo\<rparr>"
proof -
  define a where "a = iso_date_text tv"
  define b where "b = numToString (Fin m e)"
  define c where "c = type_text ty"
  define d' where "d' = rev (dropWhile is_ws (rev d))"
  have pa: "plain_text a" unfolding a_def using assms(1) by (rule plain_iso_date_text)
  have pb: "plain_text b" unfolding b_def by (rule plain_numToString)
  have pc: "plain_text c" unfolding c_def by (rule plain_type_text)
  note fa = plain_text_facts [OF pa]
  note fb = plain_text_facts [OF pb]
  note fc = plain_text_facts [OF pc]
  have d_escape: "escape_cell d = d"
    using assms(3,4,5) by (simp add: escape_cell_def str_includes_def)
  have a_ne: "a \<noteq> []" "\<not> is_ws (hd a)"
  proof -
    have "parse_iso_date a = Some (Day tv * msPerDay)"
      unfolding a_def using assms(1) by (rule parse_iso_date_text)
    then show ne: "a \<noteq> []" by (auto simp: parse_iso_date_def iso_date_fields_def)
    then have "hd a \<in> set a" by simp
    then show "\<not> is_ws (hd a)" using pa by (simp add: plain_text_def list_all_iff)
  qed
  have sep: "'','' = [comma]" by (simp add: comma_def)
  have line: "csv_line [a, b, c, d] = (a @ comma # b @ comma # c) @ comma # d"
    by (simp add: csv_line_def fa(5) fb(5) fc(5) d_escape sep)
  have trimmed: "trim (csv_line [a, b, c, d]) = a @ comma # b @ comma # c @ comma # d'"
    unfolding line d'_def using trim_line [of "a @ comma # b @ comma # c" d] a_ne
    by (cases a) simp_all
  have cols: "parseCSVLine (trim (csv_line [a, b, c, d])) = [a, b, c, trim d']"
    unfolding trimmed using pa pb pc cut_end_facts [OF assms(3,4)]
    by (intro parseCSVLine_four_cells) (simp_all add: d'_def)
  have nonblank: "trim (csv_line [a, b, c, d]) \<noteq> []"
    using a_ne(1) by (simp add: trimmed)
  have dt: "newDate legacy a = ValidDate (day_start tv)"
    using parse_iso_date_text [OF assms(1)] by (simp add: newDate_def a_def day_start_def)
  have am: "parseFloat b = canonical (Fin m e)"
    unfolding b_def using assms(2) by (rule parseFloat_numToString)
  have fin: "\<not> isNaN (canonical (Fin m e))"
    by (simp add: isNaN_def canonical_def)
  have ty: "trim (toLowerCase c) = c" "(if c = ''savings'' then Savings else Spend) = ty"
    "\<not> (c \<noteq> ''savings'' \<and> c \<noteq> ''spend'')"
    unfolding c_def by (cases ty; simp add: type_text_def text_eval)+
  have "import_row legacy i (csv_line [a, b, c, d])
          = make_row i (ValidDate (day_start tv)) (canonical (Fin m e)) c
              (normalize_description (Some (trim d')))"
    using nonblank by (simp add: import_row_def cols row_of_columns_def dt am ty(1))
  also have "\<dots> = Some \<lparr>txn_id = show_int (day_start tv) @ ''-'' @ show_nat i, date = day_start tv,
                    amount = Some (canonical (Fin m e)), txn_type = ty,
                    description = normalize_description (Some (trim d'))\<rparr>"
    using fin ty(2,3) by (simp add: make_row_def)
  finally show ?thesis
    unfolding a_def b_def c_def by blast
qed

lemma split_char_piece:
  assumes "sep \<notin> set x"
  shows "split_char sep x = [x]" and "split_char sep (x @ sep # rest) = x # split_char sep rest"
  using assms by (induction x) (auto split: list.splits simp: split_char_nonempty)

lemma split_char_join:
  assumes "ls \<noteq> []" and "\<forall>l\<in>set ls. sep \<notin> set l"
  shows "split_char sep (join [sep] ls) = ls"
  using assms
proof (induction ls)
  case Nil
  then show ?case by simp
next
  case (Cons x ls)
  show ?case
  proof (cases ls)
    case Nil
    then show ?thesis using Cons.prems by (simp add: split_char_piece)
  next
    case (Cons y ys)
    then have "split_char sep (join [sep] ls) = ls" using Cons.IH Cons.prems by simp
    then show ?thesis using Cons Cons.prems by (simp add: split_char_piece)
  qed
qed

lemma header_facts: "newline \<notin> set csv_header" "trim csv_header \<noteq> []"
  by (simp_all add: csv_header_def text_eval)

lemma stored_amount_finite:
  assumes "getTransactions st = Inr ts" and "t \<in> set ts" and "amount t = Some a"
  shows "\<exists>m e. a = Fin m e"
proof (cases st)
  case None
  with assms show ?thesis by (simp add: getTransactions_def)
next
  case (Some p)
  with assms show ?thesis
    by (cases p) (auto simp: getTransactions_def revive_txn_def amount_of_json_def
        split: json_number.splits)
qed


lemma map_throwing_all: "\<forall>x\<in>set xs. f x = Inr (g x) \<Longrightarrow> map_throwing f xs = Inr (map g xs)"
  by (induction xs) auto

lemma export_row_cells:
  assumes "exportable t"
  shows "export_row t = Inr (exported_cells t)"
proof -
  from assms obtain a where a: "amount t = Some a" and d: "\<bar>date t\<bar> \<le> maxTime"
    by (auto simp: exportable_def split: option.splits)
  show ?thesis
    by (simp add: export_row_def exported_cells_def a toISOString_date_part [OF d])
qed

lemma exportToCSV_exportable:
  assumes "getTransactions st = Inr ts" and "\<forall>t\<in>set ts. exportable t"
  shows "exportToCSV st = Inr (csv_text (map exported_cells ts))"
proof -
  have "map_throwing export_row ts = Inr (map exported_cells ts)"
    by (rule map_throwing_all) (use assms(2) export_row_cells in blast)
  then show ?thesis by (simp add: exportToCSV_def assms(1))
qed

lemma set_join: "set (join sep ls) \<subseteq> set sep \<union> \<Union> (set ` set ls)"
  by (induction sep ls rule: join.induct) auto

lemma exported_line:
  assumes "exportable t" and "amount t = Some (Fin m e)"
  shows "newline \<notin> set (csv_line (exported_cells t))"
    and "\<exists>r. import_row legacy i (csv_line (exported_cells t)) = Some r
            \<and> kept_of_imported r = kept_of_original t
            \<and> as_stored r = r"
proof -
  define d where "d = (case description t of None \<Rightarrow> [] | Some s \<Rightarrow> s)"
  have tv: "\<bar>date t\<bar> \<le> maxTime" and rng: "in_double_range (Fin m e)"
    and dd: "comma \<notin> set d" "dquote \<notin> set d" "newline \<notin> set d"
    using assms by (auto simp: exportable_def d_def split: option.splits)
  have cells: "exported_cells t = [iso_date_text (date t), numToString (Fin m e), type_text (txn_type t), d]"
    by (simp add: exported_cells_def assms(2) d_def)
  have pa: "plain_text (iso_date_text (date t))" using tv by (rule plain_iso_date_text)
  note fa = plain_text_facts [OF pa]
  note fb = plain_text_facts [OF plain_numToString [of "Fin m e"]]
  note fc = plain_text_facts [OF plain_type_text [of "txn_type t"]]
  have de: "escape_cell d = d" using dd by (simp add: escape_cell_def str_includes_def)
  have "set (csv_line (exported_cells t))
          \<subseteq> set '','' \<union> \<Union> (set ` set [iso_date_text (date t), numToString (Fin m e), type_text (txn_type t), d])"
    unfolding csv_line_def cells using set_join [of "'',''" "map escape_cell [iso_date_text (date t), numToString (Fin m e), type_text (txn_type t), d]"]
    by (simp add: fa(5) fb(5) fc(5) de)
  then show "newline \<notin> set (csv_line (exported_cells t))"
    using fa(3) fb(3) fc(3) dd(3) by (auto simp: newline_def)
  from import_row_of_exported [OF tv rng dd, of legacy i "txn_type t"] obtain memo where
    "import_row legacy i (csv_line (exported_cells t))
       = Some \<lparr>txn_id = show_int (day_start (date t)) @ ''-'' @ show_nat i, date = day_start (date t),
                amount = Some (canonical (Fin m e)), txn_type = txn_type t, description = memo\<rparr>"
    unfolding cells by blast
  moreover have "\<exists>m' e'. canonical (Fin m e) = Fin m' e'"
    by (simp add: canonical_def)
  ultimately show "\<exists>r. import_row legacy i (csv_line (exported_cells t)) = Some r
            \<and> kept_of_imported r = kept_of_original t \<and> as_stored r = r"
    by (auto simp: kept_of_imported_def kept_of_original_def assms(2) as_stored_def
        revive_txn_def stringify_txn_def json_of_amount_def amount_of_json_def)
qed

lemma valid_rows_exported:
  assumes "\<forall>t\<in>set ts. exportable t \<and> (\<exists>m e. amount t = Some (Fin m e))"
  shows "list_all2 (\<lambda>t r. kept_of_imported r = kept_of_original t \<and> as_stored r = r) ts
           (valid_rows legacy (map (\<lambda>t. csv_line (exported_cells t)) ts) i)"
  using assms
proof (induction ts arbitrary: i)
  case Nil
  then show ?case by simp
next
  case (Cons t ts)
  from Cons.prems obtain m e where t: "exportable t" "amount t = Some (Fin m e)" by auto
  from exported_line(2) [OF t, of legacy i] obtain r where
    r: "import_row legacy i (csv_line (exported_cells t)) = Some r"
      "kept_of_imported r = kept_of_original t" "as_stored r = r" by blast
  have "list_all2 (\<lambda>t r. kept_of_imported r = kept_of_original t \<and> as_stored r = r) ts
           (valid_rows legacy (map (\<lambda>t. csv_line (exported_cells t)) ts) (Suc i))"
    using Cons.IH Cons.prems by simp
  then show ?case using r by simp
qed

lemma insort_key_map:
  "insort_key g (f x) (map f ys) = map f (insort_key (\<lambda>y. g (f y)) x ys)"
  by (induction ys) auto

lemma sort_key_map: "sort_key g (map f xs) = map f (sort_key (\<lambda>y. g (f y)) xs)"
  by (induction xs) (auto simp: insort_key_map)

lemma non_blank_lines_exported:
  assumes "\<forall>t\<in>set ts. exportable t \<and> (\<exists>m e. amount t = Some (Fin m e))"
  shows "non_blank_lines (csv_text (map exported_cells ts))
           = csv_header # map (\<lambda>t. csv_line (exported_cells t)) ts"
proof -
  define ls where "ls = csv_header # map (\<lambda>t. csv_line (exported_cells t)) ts"
  have line: "newline \<notin> set l \<and> trim l \<noteq> []" if "l \<in> set ls" for l
  proof (cases "l = csv_header")
    case True
    then show ?thesis by (simp add: header_facts)
  next
    case False
    with that obtain t where t: "t \<in> set ts" "l = csv_line (exported_cells t)"
      by (auto simp: ls_def)
    with assms obtain m e where g: "exportable t" "amount t = Some (Fin m e)" by blast
    from exported_line(2) [OF g, of no_legacy_formats 0] have "trim l \<noteq> []"
      by (auto simp: t(2) import_row_def split: if_splits)
    with exported_line(1) [OF g] show ?thesis by (simp add: t(2))
  qed
  have "split_char newline (join [newline] ls) = ls"
    by (rule split_char_join) (use line in \<open>auto simp: ls_def\<close>)
  moreover have "filter (\<lambda>line. trim line \<noteq> []) ls = ls"
    using line by (simp add: filter_id_conv)
  ultimately show ?thesis
    by (simp add: non_blank_lines_def csv_text_def ls_def [symmetric] comp_def)
qed


text \<open>
  C6 as amended. Take a store that holds a list of transactions that is not empty, each
  with a valid date, a number within the doubles for its amount, and a description, if
  any, without comma, double quote or line feed. Its export, imported into an empty
  store, succeeds with the count of the list; the list that is read back has as many
  transactions, and their dates, amounts and types are those of the original list with
  every date moved to the start of its day, in ascending order of these dates (equal
  dates in the original order). The amount is the same number in canonical form
  (lemma \<open>canonical_same_value\<close>).
\<close>

theorem export_import_round_trip:
  assumes "getTransactions st = Inr ts" and "ts \<noteq> []" and "\<forall>t\<in>set ts. exportable t"
  shows "\<exists>csv listed.
           exportToCSV st = Inr csv
         \<and> fst (importFromCSV legacy csv None) = imported_result (length ts)
         \<and> getTransactions (snd (importFromCSV legacy csv None)) = Inr listed
         \<and> length listed = length ts
         \<and> map kept_of_imported listed = sort_key fst (map kept_of_original ts)"
proof -
  define csv where "csv = csv_text (map exported_cells ts)"
  define dataLines where "dataLines = map (\<lambda>t. csv_line (exported_cells t)) ts"
  define rows where "rows = valid_rows legacy dataLines 0"
  define listed where "listed = map as_stored (sort_key date rows)"
  have good: "\<forall>t\<in>set ts. exportable t \<and> (\<exists>m e. amount t = Some (Fin m e))"
  proof
    fix t assume t: "t \<in> set ts"
    with assms(3) have e: "exportable t" by simp
    then obtain a where "amount t = Some a" by (auto simp: exportable_def split: option.splits)
    with stored_amount_finite [OF assms(1) t] e show "exportable t \<and> (\<exists>m e. amount t = Some (Fin m e))"
      by auto
  qed
  have export: "exportToCSV st = Inr csv"
    unfolding csv_def using assms(1,3) by (rule exportToCSV_exportable)
  have lines: "non_blank_lines csv = csv_header # dataLines"
    unfolding csv_def dataLines_def using good by (rule non_blank_lines_exported)
  have rel: "list_all2 (\<lambda>t r. kept_of_imported r = kept_of_original t \<and> as_stored r = r) ts rows"
    unfolding rows_def dataLines_def using good by (rule valid_rows_exported)
  then have len: "length rows = length ts" by (simp add: list_all2_lengthD)
  have kept: "map kept_of_imported rows = map kept_of_original ts"
    using rel by (induction rule: list_all2_induct) auto
  have fixed: "\<forall>r\<in>set rows. as_stored r = r"
    using rel by (induction rule: list_all2_induct) auto
  have "import_loop legacy dataLines 0 [] {} = [] @ rows"
    unfolding rows_def by (rule import_loop_fresh) simp
  then have loop: "import_loop legacy dataLines 0 [] {} = rows" by simp
  have ne: "rows \<noteq> []" using len assms(2) by auto
  have nonempty: "dataLines \<noteq> []" using assms(2) by (simp add: dataLines_def)
  have res: "importFromCSV legacy csv None
               = (imported_result (length rows), Some (Records (map stringify_txn (merged [] rows))))"
    using ne nonempty
    by (simp add: importFromCSV_def lines import_lines_def getTransactions_def loop finish_import_def)
  have read: "getTransactions (snd (importFromCSV legacy csv None)) = Inr listed"
    by (simp add: res getTransactions_Records merged_def listed_def)
  have "\<forall>r\<in>set (sort_key date rows). as_stored r = r" using fixed by simp
  then have "listed = sort_key date rows" unfolding listed_def by (rule map_fixed)
  then have "map kept_of_imported listed = map kept_of_imported (sort_key (\<lambda>r. fst (kept_of_imported r)) rows)"
    by (simp add: kept_of_imported_def)
  also have "\<dots> = sort_key fst (map kept_of_imported rows)"
    by (rule sort_key_map [symmetric])
  finally have final: "map kept_of_imported listed = sort_key fst (map kept_of_original ts)"
    by (simp add: kept)
  have "length listed = length ts" by (simp add: listed_def len)
  with export res read final len show ?thesis
    by (intro exI [of _ csv] exI [of _ listed]) simp
qed

theorem export_import_round_trip_witness:
  "getTransactions (Some (Records
       [\<lparr>j_id = ''1706745600123'', j_date = 1706745600123, j_amount = JNum 25 0,
          j_type = Spend, j_description = None\<rparr>,
        \<lparr>j_id = ''1705312245123'', j_date = 1705312245123, j_amount = JNum 10050 (- 2),
          j_type = Savings, j_description = Some ''Monthly deposit''\<rparr>]))
     = Inr [\<lparr>txn_id = ''1706745600123'', date = 1706745600123, amount = Some (Fin 25 0),
              txn_type = Spend, description = None\<rparr>,
            \<lparr>txn_id = ''1705312245123'', date = 1705312245123, amount = Some (Fin 10050 (- 2)),
              txn_type = Savings, description = Some ''Monthly deposit''\<rparr>]
   \<and> exportable \<lparr>txn_id = ''1706745600123'', date = 1706745600123, amount = Some (Fin 25 0),
              txn_type = Spend, description = None\<rparr>
   \<and> exportable \<lparr>txn_id = ''1705312245123'', date = 1705312245123, amount = Some (Fin 10050 (- 2)),
              txn_type = Savings, description = Some ''Monthly deposit''\<rparr>
   \<and> exportToCSV (Some (Records
       [\<lparr>j_id = ''1706745600123'', j_date = 1706745600123, j_amount = JNum 25 0,
          j_type = Spend, j_description = None\<rparr>,
        \<lparr>j_id = ''1705312245123'', j_date = 1705312245123, j_amount = JNum 10050 (- 2),
          j_type = Savings, j_description = Some ''Monthly deposit''\<rparr>]))
     = Inr (''Date,Amount,Type,Description'' @ [newline] @ ''2024-02-01,25,spend,''
            @ [newline] @ ''2024-01-15,100.5,savings,Monthly deposit'')
   \<and> map kept_of_imported
        (case getTransactions (snd (importFromCSV no_legacy_formats
            (''Date,Amount,Type,Description'' @ [newline] @ ''2024-02-01,25,spend,''
               @ [newline] @ ''2024-01-15,100.5,savings,Monthly deposit'') None)) of
           Inl err \<Rightarrow> [] | Inr listed \<Rightarrow> listed)
     = [(1705276800000, Some (Fin 1005 (- 1)), Savings), (1706745600000, Some (Fin 25 0), Spend)]"
proof -
  define st0 where "st0 = Some (Records
       [\<lparr>j_id = ''1706745600123'', j_date = 1706745600123, j_amount = JNum 25 0,
          j_type = Spend, j_description = None\<rparr>,
        \<lparr>j_id = ''1705312245123'', j_date = 1705312245123, j_amount = JNum 10050 (- 2),
          j_type = Savings, j_description = Some ''Monthly deposit''\<rparr>])"
  define t1 where "t1 = \<lparr>txn_id = ''1706745600123'', date = 1706745600123, amount = Some (Fin 25 0),
              txn_type = Spend, description = None\<rparr>"
  define t2 where "t2 = \<lparr>txn_id = ''1705312245123'', date = 1705312245123,
              amount = Some (Fin 10050 (- 2)), txn_type = Savings, description = Some ''Monthly deposit''\<rparr>"
  have r: "getTransactions st0 = Inr [t1, t2]"
    by (simp add: st0_def t1_def t2_def service_eval)
  have e1: "exportable t1"
    by (simp add: t1_def exportable_def in_double_range_def maxTime_def number_eval)
  have e2: "exportable t2"
    by (simp add: t2_def exportable_def in_double_range_def maxTime_def number_eval text_eval)
  have ex: "exportToCSV st0 = Inr (''Date,Amount,Type,Description'' @ [newline] @ ''2024-02-01,25,spend,''
            @ [newline] @ ''2024-01-15,100.5,savings,Monthly deposit'')"
    by (simp add: st0_def text_eval number_eval date_eval service_eval)
  have k: "sort_key fst (map kept_of_original [t1, t2])
      = [(1705276800000, Some (Fin 1005 (- 1)), Savings), (1706745600000, Some (Fin 25 0), Spend)]"
    by (simp add: t1_def t2_def kept_of_original_def day_start_def Day_def msPerDay_def canonical_def
        number_eval)
  from export_import_round_trip [OF r _ _, of no_legacy_formats] e1 e2
  obtain csv listed where
    "exportToCSV st0 = Inr csv"
    "getTransactions (snd (importFromCSV no_legacy_formats csv None)) = Inr listed"
    "map kept_of_imported listed = sort_key fst (map kept_of_original [t1, t2])"
    by auto
  with ex k r e1 e2 show ?thesis
    unfolding st0_def [symmetric] t1_def [symmetric] t2_def [symmetric] by simp
qed

end
